theory Spec2Isabelle
  imports Main "HOL-Library.Multiset" "HOL-Library.Monad_Syntax"
begin

section \<open>Strings and the regular expressions of main.ts\<close>

text \<open>
  A JavaScript string is a sequence of UTF-16 code units. The model keeps the code units
  below 256, one \<^typ>\<open>char\<close> each, so a line is a \<^typ>\<open>string\<close>.

  \<open>js_space\<close> is the class \<^verbatim>\<open>\s\<close> of a JavaScript regular expression restricted to
  these code units: TAB, LF, VT, FF, CR, SPACE and NBSP. \<^verbatim>\<open>String.prototype.trim\<close> strips
  the same characters. \<open>is_digit\<close> is \<^verbatim>\<open>\d\<close>, the ten ASCII digits. \<open>line_term\<close> is
  what \<^verbatim>\<open>.\<close> refuses: LF and CR.
\<close>

definition js_space :: "char \<Rightarrow> bool" where
  "js_space c = (of_char c \<in> {9, 10, 11, 12, 13, 32, 160 :: nat})"

definition is_digit :: "char \<Rightarrow> bool" where
  "is_digit c = (48 \<le> (of_char c :: nat) \<and> (of_char c :: nat) \<le> 57)"

definition line_term :: "char \<Rightarrow> bool" where
  "line_term c = (of_char c \<in> {10, 13 :: nat})"

definition digit_val :: "char \<Rightarrow> int" where
  "digit_val c = int (of_char c) - 48"

definition digit_char :: "nat \<Rightarrow> char" where
  "digit_char n = char_of (48 + n)"

text \<open>
  The pieces of a pattern, each taking the text still to be matched and returning what
  is left after the piece (\<open>None\<close>: no match).

  \<open>lit c\<close> is one literal character, \<open>lit_str p\<close> a literal string. \<open>spaces1\<close> is
  \<^verbatim>\<open>\s+\<close>: in every pattern of main.ts the piece after \<^verbatim>\<open>\s+\<close> is a digit, a \<^verbatim>\<open>-\<close> or the
  end of the pattern, none of which is in \<^verbatim>\<open>\s\<close>, so the only run that lets the rest match
  is the longest one, and backtracking into a shorter run never succeeds.
\<close>

definition lit :: "char \<Rightarrow> string \<Rightarrow> string option" where
  "lit c s = (case s of [] \<Rightarrow> None | x # r \<Rightarrow> if x = c then Some r else None)"

definition lit_str :: "string \<Rightarrow> string \<Rightarrow> string option" where
  "lit_str p s = (if take (length p) s = p then Some (drop (length p) s) else None)"

definition spaces1 :: "string \<Rightarrow> string option" where
  "spaces1 s = (if takeWhile js_space s = [] then None else Some (dropWhile js_space s))"

text \<open>
  \<open>strict_match\<close> is \<^verbatim>\<open>line.match(/^-\s+(\d{8}|\d{12})\s+-\s+/)\<close> of \<open>parseTimestamp\<close>; the
  result is the captured group. The group is followed by \<^verbatim>\<open>\s\<close>, so it is the whole run of
  digits, which has to be 8 or 12 long.

  \<open>loose_match\<close> is \<^verbatim>\<open>line.match(/^-\s+\d{8,12}\s+-\s+/)\<close> of \<open>sortTimestampsInSection\<close>,
  used for its truth value only.
\<close>

definition strict_match :: "string \<Rightarrow> string option" where
  "strict_match line =
     do {
       r1 \<leftarrow> lit (CHR ''-'') line;
       r2 \<leftarrow> spaces1 r1;
       let ds = takeWhile is_digit r2;
       (if length ds = 8 \<or> length ds = 12 then
          do {
            r3 \<leftarrow> spaces1 (dropWhile is_digit r2);
            r4 \<leftarrow> lit (CHR ''-'') r3;
            r5 \<leftarrow> spaces1 r4;
            Some ds
          }
        else None)
     }"

definition loose_match :: "string \<Rightarrow> bool" where
  "loose_match line =
     (do {
        r1 \<leftarrow> lit (CHR ''-'') line;
        r2 \<leftarrow> spaces1 r1;
        let ds = takeWhile is_digit r2;
        (if 8 \<le> length ds \<and> length ds \<le> 12 then
           do {
             r3 \<leftarrow> spaces1 (dropWhile is_digit r2);
             r4 \<leftarrow> lit (CHR ''-'') r3;
             r5 \<leftarrow> spaces1 r4;
             Some ()
           }
         else None)
      } \<noteq> None)"

text \<open>
  \<open>getHeadingLevel\<close> returns the length of the group of \<^verbatim>\<open>line.match(/^(#{1,6})\s+/)\<close>,
  or 0 when the line does not match: the leading run
  of \<^verbatim>\<open>#\<close> is followed by \<^verbatim>\<open>\s\<close>, so the group is the whole run, 1 to 6 long.
\<close>

definition getHeadingLevel :: "string \<Rightarrow> int" where
  "getHeadingLevel line =
     (let hs = takeWhile (\<lambda>c. c = CHR ''#'') line in
      if 1 \<le> length hs \<and> length hs \<le> 6 \<and> spaces1 (dropWhile (\<lambda>c. c = CHR ''#'') line) \<noteq> None
      then int (length hs) else 0)"

text \<open>
  \<open>headingMatch\<close> is \<^verbatim>\<open>line.match(/^(#{1,6})\s+(.+)$/)\<close> of \<open>loadSectionsForFile\<close>: the level
  and the title. After the run of \<^verbatim>\<open>#\<close>, \<^verbatim>\<open>\s+\<close> takes \<open>k\<close> characters, the longest
  choice first, and \<^verbatim>\<open>(.+)$\<close> needs all the rest: not empty and free of line terminators.
\<close>

definition headingMatch :: "string \<Rightarrow> (nat \<times> string) option" where
  "headingMatch line =
     (let hs = takeWhile (\<lambda>c. c = CHR ''#'') line;
          r = dropWhile (\<lambda>c. c = CHR ''#'') line in
      if 1 \<le> length hs \<and> length hs \<le> 6 then
        (case find (\<lambda>k. list_all js_space (take k r) \<and> list_all (\<lambda>c. \<not> line_term c) (drop k r))
                (rev [1..<length r]) of
           None \<Rightarrow> None
         | Some k \<Rightarrow> Some (length hs, drop k r))
      else None)"

text \<open>
  \<open>permalink_at\<close> is \<^verbatim>\<open>(\/r\/[^/]+\/comments\/[^/]+\/)\<close> tried at the start of its argument,
  and \<open>permalink_match\<close> is \<^verbatim>\<open>slug.match(...)\<close>: the pattern has no anchor, so the search
  tries every position from the left and returns the first match. Each \<^verbatim>\<open>[^/]+\<close> is followed
  by \<^verbatim>\<open>/\<close>, so it is the whole run of characters other than \<^verbatim>\<open>/\<close>.
\<close>

definition not_slash :: "char \<Rightarrow> bool" where
  "not_slash c = (c \<noteq> CHR ''/'')"

definition permalink_at :: "string \<Rightarrow> string option" where
  "permalink_at s =
     do {
       r1 \<leftarrow> lit_str ''/r/'' s;
       let sub = takeWhile not_slash r1;
       (if sub = [] then None
        else do {
          r2 \<leftarrow> lit_str ''/comments/'' (dropWhile not_slash r1);
          let pid = takeWhile not_slash r2;
          (if pid = [] then None
           else do {
             r3 \<leftarrow> lit (CHR ''/'') (dropWhile not_slash r2);
             Some (''/r/'' @ sub @ ''/comments/'' @ pid @ ''/'')
           })
        })
     }"

fun permalink_match :: "string \<Rightarrow> string option" where
  "permalink_match [] = None"
| "permalink_match (c # cs) =
     (case permalink_at (c # cs) of Some m \<Rightarrow> Some m | None \<Rightarrow> permalink_match cs)"

definition js_trim :: "string \<Rightarrow> string" where
  "js_trim s = rev (dropWhile js_space (rev (dropWhile js_space s)))"

section \<open>Numbers and their decimal text\<close>

text \<open>
  A JavaScript number is a double; every number of main.ts is an integer far below
  \<open>2^53\<close> or NaN, so the model is \<open>Num\<close> of an \<^typ>\<open>int\<close>, or \<open>NaN\<close>.
\<close>

datatype jsnum = NaN | Num int

fun digits_of :: "nat \<Rightarrow> string" where
  "digits_of n = (if n < 10 then [digit_char n] else digits_of (n div 10) @ [digit_char (n mod 10)])"

declare digits_of.simps [simp del]

definition toString :: "jsnum \<Rightarrow> string" where
  "toString x =
     (case x of
        NaN \<Rightarrow> ''NaN''
      | Num n \<Rightarrow> if n < 0 then CHR ''-'' # digits_of (nat (- n)) else digits_of (nat n))"

definition padStart2 :: "string \<Rightarrow> string" where
  "padStart2 s = replicate (2 - length s) (CHR ''0'') @ s"

text \<open>\<open>pad\<close> is \<^verbatim>\<open>(n: number) => n.toString().padStart(2, '0')\<close>.\<close>

definition pad :: "jsnum \<Rightarrow> string" where
  "pad n = padStart2 (toString n)"

text \<open>\<^verbatim>\<open>parseInt\<close> of a string of decimal digits.\<close>

definition parseInt :: "string \<Rightarrow> int" where
  "parseInt s = foldl (\<lambda>acc c. 10 * acc + digit_val c) 0 s"

definition substring :: "string \<Rightarrow> nat \<Rightarrow> nat \<Rightarrow> string" where
  "substring s i j = take (j - i) (drop i s)"

section \<open>The Date object\<close>

text \<open>
  \<open>Date\<close> is the host's, not the repository's; the model follows ECMA-262 (Date objects,
  "Time Values and Time Range" to "Date.prototype"). A time value is the number of
  milliseconds since the epoch, UTC. \<open>DayFromYear\<close>, \<open>MakeTime\<close>, \<open>MakeDay\<close>, \<open>MakeDate\<close>
  are the abstract operations of that name.

  The host's time zone is \<open>tz\<close>, its offset from UTC in milliseconds (LocalTZA), taken
  constant: \<open>LocalTime t = t + tz\<close> and \<open>UTC t = t - tz\<close>. A zone with daylight saving has
  two offsets, and the model describes it only away from its transitions.
\<close>

definition msPerDay :: int where
  "msPerDay = 86400000"

definition DayFromYear :: "int \<Rightarrow> int" where
  "DayFromYear y = 365 * (y - 1970) + (y - 1969) div 4 - (y - 1901) div 100 + (y - 1601) div 400"

definition InLeapYear :: "int \<Rightarrow> bool" where
  "InLeapYear y = ((y mod 4 = 0 \<and> y mod 100 \<noteq> 0) \<or> y mod 400 = 0)"

text \<open>
  ECMA-262 has \<open>YearFromTime t\<close> as the largest \<open>y\<close> with \<open>TimeFromYear y \<le> t\<close>.
  \<open>YearFromDay\<close> computes it from the day number: an estimate from the mean length of a
  year, corrected by one where it is off (lemma \<open>YearFromDay_spec\<close> below).
\<close>

definition YearFromDay :: "int \<Rightarrow> int" where
  "YearFromDay n =
     (let e = 1970 + (400 * n) div 146097 in
      if n < DayFromYear e then e - 1
      else if DayFromYear (e + 1) \<le> n then e + 1
      else e)"

text \<open>The day within the year on which month \<open>m\<close> (0 to 11) starts.\<close>

definition month_start :: "bool \<Rightarrow> int \<Rightarrow> int" where
  "month_start leap m =
     (let l = (if leap then 1 else 0) in
      if m = 0 then 0 else if m = 1 then 31 else if m = 2 then 59 + l
      else if m = 3 then 90 + l else if m = 4 then 120 + l else if m = 5 then 151 + l
      else if m = 6 then 181 + l else if m = 7 then 212 + l else if m = 8 then 243 + l
      else if m = 9 then 273 + l else if m = 10 then 304 + l else 334 + l)"

text \<open>\<open>MonthFromTime\<close> and \<open>DateFromTime\<close> of ECMA-262, from the day within the year.\<close>

definition MonthFromDay :: "bool \<Rightarrow> int \<Rightarrow> int" where
  "MonthFromDay leap d =
     (let l = (if leap then 1 else 0) in
      if d < 31 then 0 else if d < 59 + l then 1 else if d < 90 + l then 2
      else if d < 120 + l then 3 else if d < 151 + l then 4 else if d < 181 + l then 5
      else if d < 212 + l then 6 else if d < 243 + l then 7 else if d < 273 + l then 8
      else if d < 304 + l then 9 else if d < 334 + l then 10 else 11)"

definition MakeDay :: "int \<Rightarrow> int \<Rightarrow> int \<Rightarrow> int" where
  "MakeDay year month date =
     (let ym = year + month div 12; mn = month mod 12 in
      DayFromYear ym + month_start (InLeapYear ym) mn + date - 1)"

definition MakeTime :: "int \<Rightarrow> int \<Rightarrow> int \<Rightarrow> int \<Rightarrow> int" where
  "MakeTime hour minute sec ms = hour * 3600000 + minute * 60000 + sec * 1000 + ms"

definition MakeDate :: "int \<Rightarrow> int \<Rightarrow> int" where
  "MakeDate day time = day * msPerDay + time"

text \<open>
  \<^verbatim>\<open>new Date(year, month, day, hour, minute)\<close>: the fields are local time; a year from 0 to
  99 means 1900 + year. The result is the time value. With the fields \<open>parseTimestamp\<close>
  passes (a year below 10000, a month below 99, the others below 100) the value is far
  inside the range of TimeClip, so it is never NaN.
\<close>

definition newDate :: "int \<Rightarrow> int \<Rightarrow> int \<Rightarrow> int \<Rightarrow> int \<Rightarrow> int \<Rightarrow> int" where
  "newDate tz year month day hour minute =
     (let yr = (if 0 \<le> year \<and> year \<le> 99 then 1900 + year else year) in
      MakeDate (MakeDay yr month day) (MakeTime hour minute 0 0) - tz)"

text \<open>The getters read the local time \<open>t + tz\<close>; on an invalid Date they return NaN.\<close>

definition Day :: "int \<Rightarrow> int" where
  "Day t = t div msPerDay"

definition DayWithinYear :: "int \<Rightarrow> int" where
  "DayWithinYear t = Day t - DayFromYear (YearFromDay (Day t))"

definition getFullYear :: "int \<Rightarrow> jsnum \<Rightarrow> jsnum" where
  "getFullYear tz x = (case x of NaN \<Rightarrow> NaN | Num t \<Rightarrow> Num (YearFromDay (Day (t + tz))))"

definition getMonth :: "int \<Rightarrow> jsnum \<Rightarrow> jsnum" where
  "getMonth tz x =
     (case x of NaN \<Rightarrow> NaN
      | Num t \<Rightarrow> Num (MonthFromDay (InLeapYear (YearFromDay (Day (t + tz)))) (DayWithinYear (t + tz))))"

definition getDate :: "int \<Rightarrow> jsnum \<Rightarrow> jsnum" where
  "getDate tz x =
     (case x of NaN \<Rightarrow> NaN
      | Num t \<Rightarrow>
          (let leap = InLeapYear (YearFromDay (Day (t + tz))); d = DayWithinYear (t + tz) in
           Num (d - month_start leap (MonthFromDay leap d) + 1)))"

definition getHours :: "int \<Rightarrow> jsnum \<Rightarrow> jsnum" where
  "getHours tz x = (case x of NaN \<Rightarrow> NaN | Num t \<Rightarrow> Num (((t + tz) div 3600000) mod 24))"

definition getMinutes :: "int \<Rightarrow> jsnum \<Rightarrow> jsnum" where
  "getMinutes tz x = (case x of NaN \<Rightarrow> NaN | Num t \<Rightarrow> Num (((t + tz) div 60000) mod 60))"

definition plus1 :: "jsnum \<Rightarrow> jsnum" where
  "plus1 x = (case x of NaN \<Rightarrow> NaN | Num n \<Rightarrow> Num (n + 1))"

definition minus_ms :: "jsnum \<Rightarrow> int \<Rightarrow> jsnum" where
  "minus_ms x k = (case x of NaN \<Rightarrow> NaN | Num n \<Rightarrow> Num (n - k))"

text \<open>
  \<open>formattedTime\<close> is the template of lines 105 to 107 of main.ts: the year as it prints,
  then month + 1, day, hours and minutes through \<open>pad\<close>.
\<close>

definition formattedTime :: "int \<Rightarrow> jsnum \<Rightarrow> string" where
  "formattedTime tz t =
     toString (getFullYear tz t) @ pad (plus1 (getMonth tz t)) @ pad (getDate tz t)
       @ pad (getHours tz t) @ pad (getMinutes tz t)"

text \<open>
  \<^verbatim>\<open>new Date(string)\<close> is \<open>Date.parse\<close>, which ECMA-262 specifies for the Date Time String
  Format only and leaves to the implementation elsewhere; the extractor therefore takes
  the host's parser as a parameter. \<open>ecma_parse\<close> is the specified part for the shapes
  \<^verbatim>\<open>YYYY-MM-DDTHH:mm:ssZ\<close> and \<^verbatim>\<open>YYYY-MM-DDTHH:mm:ss.sssZ\<close> with every field in range: the UTC
  instant named. On any other string it returns NaN, which stands for whatever the host
  does there; the statements below use it on strings of the first shape only.
\<close>

definition days_in_month :: "bool \<Rightarrow> int \<Rightarrow> int" where
  "days_in_month leap m =
     (if m = 2 then (if leap then 29 else 28)
      else if m = 4 \<or> m = 6 \<or> m = 9 \<or> m = 11 then 30 else 31)"

definition ecma_fields :: "int \<Rightarrow> int \<Rightarrow> int \<Rightarrow> int \<Rightarrow> int \<Rightarrow> int \<Rightarrow> int \<Rightarrow> jsnum" where
  "ecma_fields y m d h mi s ms =
     (if 1 \<le> m \<and> m \<le> 12 \<and> 1 \<le> d \<and> d \<le> days_in_month (InLeapYear y) m
         \<and> h \<le> 23 \<and> mi \<le> 59 \<and> s \<le> 59
      then Num (MakeDate (MakeDay y (m - 1) d) (MakeTime h mi s ms)) else NaN)"

definition ecma_parse :: "string \<Rightarrow> jsnum" where
  "ecma_parse s =
     (let dg = (\<lambda>i j. list_all is_digit (substring s i j));
          v = (\<lambda>i j. parseInt (substring s i j));
          shape = (dg 0 4 \<and> substring s 4 5 = ''-'' \<and> dg 5 7 \<and> substring s 7 8 = ''-''
                   \<and> dg 8 10 \<and> substring s 10 11 = ''T'' \<and> dg 11 13 \<and> substring s 13 14 = '':''
                   \<and> dg 14 16 \<and> substring s 16 17 = '':'' \<and> dg 17 19) in
      if length s = 20 \<and> shape \<and> substring s 19 20 = ''Z''
      then ecma_fields (v 0 4) (v 5 7) (v 8 10) (v 11 13) (v 14 16) (v 17 19) 0
      else if length s = 24 \<and> shape \<and> substring s 19 20 = ''.'' \<and> dg 20 23
              \<and> substring s 23 24 = ''Z''
      then ecma_fields (v 0 4) (v 5 7) (v 8 10) (v 11 13) (v 14 16) (v 17 19) (v 20 23)
      else NaN)"

section \<open>TimestampParser\<close>

record TimestampedEntry =
  line :: string
  timestamp :: "int option"
  originalIndex :: int

text \<open>
  \<open>timestamp\<close> is \<^verbatim>\<open>Date | null\<close>: \<open>None\<close> is null, \<open>Some t\<close> a Date with time value \<open>t\<close>.
\<close>

definition parseTimestamp :: "int \<Rightarrow> string \<Rightarrow> int option" where
  "parseTimestamp tz ln =
     (case strict_match ln of
        None \<Rightarrow> None
      | Some timestampStr \<Rightarrow>
          if length timestampStr = 8 then
            (let year = parseInt (substring timestampStr 0 4);
                 month = parseInt (substring timestampStr 4 6) - 1;
                 day = parseInt (substring timestampStr 6 8)
             in Some (newDate tz year month day 0 0))
          else if length timestampStr = 12 then
            (let year = parseInt (substring timestampStr 0 4);
                 month = parseInt (substring timestampStr 4 6) - 1;
                 day = parseInt (substring timestampStr 6 8);
                 hour = parseInt (substring timestampStr 8 10);
                 minute = parseInt (substring timestampStr 10 12)
             in Some (newDate tz year month day hour minute))
          else None)"

text \<open>The comparator handed to \<^verbatim>\<open>entries.sort\<close>, in the order of its tests.\<close>

definition compareEntries :: "TimestampedEntry \<Rightarrow> TimestampedEntry \<Rightarrow> int" where
  "compareEntries a b =
     (if timestamp a = None \<and> timestamp b = None then originalIndex a - originalIndex b
      else case timestamp a of
        None \<Rightarrow> - 1
      | Some ta \<Rightarrow>
          (case timestamp b of
             None \<Rightarrow> 1
           | Some tb \<Rightarrow> tb - ta))"

text \<open>
  \<^verbatim>\<open>Array.prototype.sort\<close> is a stable sort (ECMA-262 since 2019); which algorithm runs is
  the engine's choice. The model is the stable insertion sort: an element goes in front
  of the first later element that it does not have to follow.
\<close>

fun insert_by :: "('a \<Rightarrow> 'a \<Rightarrow> int) \<Rightarrow> 'a \<Rightarrow> 'a list \<Rightarrow> 'a list" where
  "insert_by cmp x [] = [x]"
| "insert_by cmp x (y # ys) = (if cmp x y \<le> 0 then x # y # ys else y # insert_by cmp x ys)"

definition array_sort :: "('a \<Rightarrow> 'a \<Rightarrow> int) \<Rightarrow> 'a list \<Rightarrow> 'a list" where
  "array_sort cmp xs = foldr (insert_by cmp) xs []"

definition sortTimestampedEntries :: "TimestampedEntry list \<Rightarrow> TimestampedEntry list" where
  "sortTimestampedEntries entries = array_sort compareEntries entries"

section \<open>RedditPostParserCommand\<close>

text \<open>
  cheerio's selection \<^verbatim>\<open>$('shreddit-post')\<close> is the list of the \<^verbatim>\<open>shreddit-post\<close> elements of
  the fragment, in document order; an element is the map of its attributes, and
  \<^verbatim>\<open>post.attr(name)\<close> is the value or \<^verbatim>\<open>undefined\<close>. \<open>falsy\<close> is \<^verbatim>\<open>!x\<close> on such a value:
  undefined or the empty string.
\<close>

type_synonym element = "string \<rightharpoonup> string"

definition falsy :: "string option \<Rightarrow> bool" where
  "falsy x = (case x of None \<Rightarrow> True | Some s \<Rightarrow> s = [])"

text \<open>
  The body of the callback of \<^verbatim>\<open>posts.each\<close>: \<open>None\<close> where it returns early, \<open>Some\<close> of the
  line it pushes otherwise. \<open>dp\<close> is the host's \<^verbatim>\<open>Date.parse\<close>.
\<close>

definition postLine :: "(string \<Rightarrow> jsnum) \<Rightarrow> int \<Rightarrow> element \<Rightarrow> string option" where
  "postLine dp tz post =
     (let title = post ''post-title'';
          slug = post ''permalink'';
          timestampStr = post ''created-timestamp'' in
      if falsy title \<or> falsy slug \<or> falsy timestampStr then None
      else
        (case permalink_match (the slug) of
           None \<Rightarrow> None
         | Some m \<Rightarrow>
             (let postUrl = ''https://www.reddit.com'' @ m;
                  utcTime = dp (the timestampStr);
                  edtOffsetMs = 4 * 60 * 60 * 1000;
                  edtTime = minus_ms utcTime edtOffsetMs
              in Some (''- '' @ formattedTime tz edtTime @ '' - ['' @ the title @ '']('' @ postUrl @ '')''))))"

fun extractLoop :: "(string \<Rightarrow> jsnum) \<Rightarrow> int \<Rightarrow> element list \<Rightarrow> string list \<Rightarrow> string list" where
  "extractLoop dp tz [] results = results"
| "extractLoop dp tz (elem # elems) results =
     (case postLine dp tz elem of
        None \<Rightarrow> extractLoop dp tz elems results
      | Some l \<Rightarrow> extractLoop dp tz elems (results @ [l]))"

definition extractRedditPosts :: "(string \<Rightarrow> jsnum) \<Rightarrow> int \<Rightarrow> element list \<Rightarrow> string list" where
  "extractRedditPosts dp tz posts = extractLoop dp tz posts []"

section \<open>SortTimestampedListCommand\<close>

text \<open>
  The document is a text; \<open>split_nl\<close> is \<^verbatim>\<open>content.split('\n')\<close>, its lines, and \<open>join_nl\<close> is
  \<^verbatim>\<open>newLines.join('\n')\<close>. An index is an \<^typ>\<open>int\<close>, as \<open>endLine\<close> can be \<open>startLine - 1\<close>.
  A section is the object the modal hands over: its label and the index of the heading's
  line, \<open>-1\<close> for the entire document; its field \<^verbatim>\<open>line\<close> is \<open>sline\<close> here, \<open>line\<close> being
  the field of a timestamped entry.
\<close>

fun split_nl :: "string \<Rightarrow> string list" where
  "split_nl [] = [[]]"
| "split_nl (c # cs) =
     (if c = CHR 0x0A then [] # split_nl cs
      else (case split_nl cs of [] \<Rightarrow> [[c]] | l # ls \<Rightarrow> (c # l) # ls))"

fun join_nl :: "string list \<Rightarrow> string" where
  "join_nl [] = []"
| "join_nl [l] = l"
| "join_nl (l # m # ls) = l @ CHR 0x0A # join_nl (m # ls)"

record section_ref =
  heading :: string
  sline :: int

text \<open>
  \<open>loadSectionsForFile\<close> is the list of sections offered: the entry for the entire
  document first, then one entry per line that \<open>headingMatch\<close> accepts, top to bottom,
  labelled with the title indented by two spaces per level above the first. The label of
  the first entry starts with a pictograph in the source, a character outside the code
  units kept here; labels are shown to the user and decide nothing.
\<close>

definition entireDocument :: section_ref where
  "entireDocument = \<lparr>heading = ''Entire Document'', sline = - 1\<rparr>"

fun headingsFrom :: "int \<Rightarrow> string list \<Rightarrow> section_ref list" where
  "headingsFrom i [] = []"
| "headingsFrom i (l # ls) =
     (case headingMatch l of
        None \<Rightarrow> headingsFrom (i + 1) ls
      | Some (level, title) \<Rightarrow>
          \<lparr>heading = replicate (2 * (level - 1)) (CHR '' '') @ title, sline = i\<rparr>
            # headingsFrom (i + 1) ls)"

definition loadSectionsForFile :: "string \<Rightarrow> section_ref list" where
  "loadSectionsForFile content = entireDocument # headingsFrom 0 (split_nl content)"

datatype error = TypeError

text \<open>
  The loop of lines 401 to 407 over the indices still to visit: it stops at the first
  line that is a heading of the current level or above.
\<close>

fun findEnd :: "string list \<Rightarrow> int \<Rightarrow> int list \<Rightarrow> int \<Rightarrow> int" where
  "findEnd lines currentHeadingLevel [] endLine = endLine"
| "findEnd lines currentHeadingLevel (i # is) endLine =
     (let headingLevel = getHeadingLevel (lines ! nat i) in
      if headingLevel > 0 \<and> headingLevel \<le> currentHeadingLevel then i - 1
      else findEnd lines currentHeadingLevel is endLine)"

text \<open>
  Lines 392 to 408: \<open>(startLine, endLine)\<close>. Outside the document \<^verbatim>\<open>lines[section.line]\<close> is
  undefined, and \<open>getHeadingLevel\<close> throws a TypeError on it.
\<close>

definition sectionBounds :: "string list \<Rightarrow> section_ref \<Rightarrow> error + (int \<times> int)" where
  "sectionBounds lines sec =
     (if sline sec \<noteq> - 1 then
        (if 0 \<le> sline sec \<and> sline sec < int (length lines) then
           (let startLine = sline sec + 1;
                currentHeadingLevel = getHeadingLevel (lines ! nat (sline sec))
            in Inr (startLine,
                 findEnd lines currentHeadingLevel [startLine..int (length lines) - 1]
                   (int (length lines) - 1)))
         else Inl TypeError)
      else Inr (0, int (length lines) - 1))"

text \<open>
  Lines 414 to 429, the scan of the range: the timestamped entries and the other lines,
  each in the order met. \<open>isTimestampRow\<close> names the test of line 418 and \<open>entryAt\<close> the
  object pushed at lines 420 to 424, for the statements below.
\<close>

definition isTimestampRow :: "int \<Rightarrow> string \<Rightarrow> bool" where
  "isTimestampRow tz ln = (parseTimestamp tz ln \<noteq> None \<or> loose_match ln)"

definition entryAt :: "int \<Rightarrow> string list \<Rightarrow> int \<Rightarrow> TimestampedEntry" where
  "entryAt tz lines i =
     \<lparr>line = lines ! nat i, timestamp = parseTimestamp tz (lines ! nat i), originalIndex = i\<rparr>"

fun scanSection ::
  "int \<Rightarrow> string list \<Rightarrow> int list \<Rightarrow> TimestampedEntry list \<times> string list
     \<Rightarrow> TimestampedEntry list \<times> string list" where
  "scanSection tz lines [] acc = acc"
| "scanSection tz lines (i # is) (timestampedEntries, nonTimestampedLines) =
     (let ln = lines ! nat i; ts = parseTimestamp tz ln in
      if ts \<noteq> None \<or> loose_match ln
      then scanSection tz lines is
             (timestampedEntries @ [\<lparr>line = ln, timestamp = ts, originalIndex = i\<rparr>],
              nonTimestampedLines)
      else scanSection tz lines is (timestampedEntries, nonTimestampedLines @ [ln]))"

text \<open>
  Lines 440 to 470, the reconstruction, on the state \<open>(newLines, insertIndex)\<close>. Every
  write of the source is at an index inside the array (lemmas below), where
  \<^verbatim>\<open>newLines[i] = v\<close> is \<open>newLines[nat i := v]\<close>.
\<close>

definition clearSection :: "int list \<Rightarrow> string list \<Rightarrow> string list" where
  "clearSection is newLines = fold (\<lambda>i ls. ls[nat i := []]) is newLines"

definition putEntry :: "int \<Rightarrow> TimestampedEntry \<Rightarrow> string list \<times> int \<Rightarrow> string list \<times> int" where
  "putEntry endLine entry st =
     (case st of (newLines, insertIndex) \<Rightarrow>
        if insertIndex \<le> endLine then (newLines[nat insertIndex := line entry], insertIndex + 1)
        else (newLines, insertIndex))"

definition putLine :: "int \<Rightarrow> string \<Rightarrow> string list \<times> int \<Rightarrow> string list \<times> int" where
  "putLine endLine ln st =
     (case st of (newLines, insertIndex) \<Rightarrow>
        if insertIndex \<le> endLine \<and> js_trim ln \<noteq> [] then (newLines[nat insertIndex := ln], insertIndex + 1)
        else (newLines, insertIndex))"

definition fillRest :: "int \<Rightarrow> string list \<times> int \<Rightarrow> string list" where
  "fillRest endLine st =
     (case st of (newLines, insertIndex) \<Rightarrow> fold (\<lambda>i ls. ls[nat i := []]) [insertIndex..endLine] newLines)"

definition rebuild ::
  "string list \<Rightarrow> int \<Rightarrow> int \<Rightarrow> TimestampedEntry list \<Rightarrow> string list \<Rightarrow> string list" where
  "rebuild lines startLine endLine sortedEntries nonTimestampedLines =
     fillRest endLine
       (fold (putLine endLine) nonTimestampedLines
          (fold (putEntry endLine) sortedEntries
             (clearSection [startLine..endLine] lines, startLine)))"

text \<open>
  What the command does to the vault and shows the user: a notice alone, or
  \<^verbatim>\<open>vault.modify(file, newContent)\<close> followed by a notice. \<open>content\<close> is what
  \<^verbatim>\<open>vault.read(file)\<close> returned.
\<close>

datatype outcome = Notice string | Modify string string

definition sortTimestampsInSection :: "int \<Rightarrow> string \<Rightarrow> section_ref \<Rightarrow> error + outcome" where
  "sortTimestampsInSection tz content sec =
     (let lines = split_nl content in
      case sectionBounds lines sec of
        Inl e \<Rightarrow> Inl e
      | Inr (startLine, endLine) \<Rightarrow>
          (case scanSection tz lines [startLine..endLine] ([], []) of
             (timestampedEntries, nonTimestampedLines) \<Rightarrow>
               if length timestampedEntries = 0
               then Inr (Notice ''No timestamped entries found in the selected section'')
               else
                 (let sortedEntries = sortTimestampedEntries timestampedEntries;
                      newLines = rebuild lines startLine endLine sortedEntries nonTimestampedLines;
                      newContent = join_nl newLines
                  in Inr (Modify newContent
                       (''Sorted '' @ toString (Num (int (length sortedEntries)))
                          @ '' timestamped entries in '' @ [CHR 0x22] @ heading sec @ [CHR 0x22])))))"

section \<open>The patterns as decompositions of a line\<close>

text \<open>
  \<open>row_shape ln ds\<close>: the line is \<^verbatim>\<open>-\<close>, one or more characters of \<^verbatim>\<open>\s\<close>, the digits \<open>ds\<close>,
  one or more characters of \<^verbatim>\<open>\s\<close>, \<^verbatim>\<open>-\<close>, one or more characters of \<^verbatim>\<open>\s\<close>, and anything
  after that. This is the language of the two timestamp patterns, up to the number of
  digits.
\<close>

definition all_space :: "string \<Rightarrow> bool" where
  "all_space ws = (ws \<noteq> [] \<and> list_all js_space ws)"

definition row_shape :: "string \<Rightarrow> string \<Rightarrow> bool" where
  "row_shape ln ds =
     (\<exists>ws1 ws2 ws3 rest.
        ln = CHR ''-'' # ws1 @ ds @ ws2 @ CHR ''-'' # ws3 @ rest
        \<and> all_space ws1 \<and> list_all is_digit ds \<and> all_space ws2 \<and> all_space ws3)"

text \<open>
  The grammar in the words of the specification: the line starts with \<^verbatim>\<open>- \<close> (one
  space), then exactly 8 or exactly 12 digits, then \<^verbatim>\<open> - \<close> (one space on each side).
\<close>

definition spec_strict_grammar :: "string \<Rightarrow> bool" where
  "spec_strict_grammar ln =
     (let ds = takeWhile is_digit (drop 2 ln) in
      take 2 ln = ''- '' \<and> (length ds = 8 \<or> length ds = 12)
      \<and> take 3 (drop (2 + length ds) ln) = '' - '')"

text \<open>
  \<open>formatParsed\<close> is the round trip of a line: \<open>parseTimestamp\<close>, then \<open>formattedTime\<close> on
  the Date it returns. \<open>calendar_code\<close> says that twelve digits name a minute of the calendar
  in a year of four digits: year 1000 to 9999, month 01 to 12, a day that the month has,
  hour 00 to 23, minute 00 to 59.
\<close>

definition formatParsed :: "int \<Rightarrow> string \<Rightarrow> string option" where
  "formatParsed tz ln = map_option (\<lambda>t. formattedTime tz (Num t)) (parseTimestamp tz ln)"

definition calendar_code :: "string \<Rightarrow> bool" where
  "calendar_code ds =
     (let year = parseInt (substring ds 0 4);
          month = parseInt (substring ds 4 6);
          day = parseInt (substring ds 6 8);
          hour = parseInt (substring ds 8 10);
          minute = parseInt (substring ds 10 12)
      in 1000 \<le> year \<and> 1 \<le> month \<and> month \<le> 12
         \<and> 1 \<le> day \<and> day \<le> days_in_month (InLeapYear year) month
         \<and> hour \<le> 23 \<and> minute \<le> 59)"

text \<open>
  \<open>permalink_shape s\<close>: somewhere in \<open>s\<close> stands \<^verbatim>\<open>/r/\<close>, a subreddit, \<^verbatim>\<open>/comments/\<close>, an id and
  \<^verbatim>\<open>/\<close>, where the subreddit and the id are not empty and hold no \<^verbatim>\<open>/\<close>: the language of the
  permalink pattern.
\<close>

definition permalink_shape :: "string \<Rightarrow> bool" where
  "permalink_shape s =
     (\<exists>pre sub pid rest.
        s = pre @ ''/r/'' @ sub @ ''/comments/'' @ pid @ ''/'' @ rest
        \<and> sub \<noteq> [] \<and> list_all not_slash sub \<and> pid \<noteq> [] \<and> list_all not_slash pid)"

text \<open>
  The heading level in the words of the specification: the number of leading \<^verbatim>\<open>#\<close>, 1 to
  6, when they are followed by whitespace and then by text that is not empty; 0 for any
  other line. \<open>spec_section_end\<close> is the end of the section of the heading at line \<open>h\<close> in
  the same words: the index before the first line from \<open>h + 1\<close> on whose level, so
  defined, is positive and at most that of line \<open>h\<close>, or the last index.
\<close>

definition spec_heading_level :: "string \<Rightarrow> int" where
  "spec_heading_level ln =
     (let hs = takeWhile (\<lambda>c. c = CHR ''#'') ln;
          r = dropWhile (\<lambda>c. c = CHR ''#'') ln in
      if 1 \<le> length hs \<and> length hs \<le> 6 \<and> 2 \<le> length r \<and> js_space (hd r)
      then int (length hs) else 0)"

definition spec_section_end :: "string list \<Rightarrow> int \<Rightarrow> int" where
  "spec_section_end lines h =
     (case find (\<lambda>i. 0 < spec_heading_level (lines ! nat i)
                     \<and> spec_heading_level (lines ! nat i) \<le> spec_heading_level (lines ! nat h))
             [h + 1..int (length lines) - 1] of
        None \<Rightarrow> int (length lines) - 1
      | Some i \<Rightarrow> i - 1)"

section \<open>The comparator and the sort\<close>

lemma compareEntries_trans:
  "compareEntries a b \<le> 0 \<Longrightarrow> compareEntries b c \<le> 0 \<Longrightarrow> compareEntries a c \<le> 0"
  by (auto simp: compareEntries_def split: option.splits if_splits)

lemma compareEntries_total: "compareEntries a b \<le> 0 \<or> compareEntries b a \<le> 0"
  by (auto simp: compareEntries_def split: option.splits if_splits)

lemma set_insert_by: "set (insert_by cmp x ys) = insert x (set ys)"
  by (induction ys) auto

lemma mset_insert_by: "mset (insert_by cmp x ys) = add_mset x (mset ys)"
  by (induction ys) auto

lemma mset_array_sort: "mset (array_sort cmp xs) = mset xs"
  by (induction xs) (simp_all add: array_sort_def mset_insert_by)

lemma sorted_insert_by:
  assumes tr: "\<And>a b c. cmp a b \<le> 0 \<Longrightarrow> cmp b c \<le> 0 \<Longrightarrow> cmp a c \<le> 0"
    and tot: "\<And>a b. cmp a b \<le> 0 \<or> cmp b a \<le> 0"
  shows "sorted_wrt (\<lambda>a b. cmp a b \<le> 0) ys \<Longrightarrow> sorted_wrt (\<lambda>a b. cmp a b \<le> 0) (insert_by cmp x ys)"
proof (induction ys)
  case Nil
  then show ?case by simp
next
  case (Cons y ys)
  show ?case
  proof (cases "cmp x y \<le> 0")
    case True
    with Cons.prems tr show ?thesis by auto
  next
    case False
    with tot have "cmp y x \<le> 0" by blast
    with False Cons show ?thesis by (auto simp: set_insert_by)
  qed
qed

lemma sorted_array_sort:
  assumes tr: "\<And>a b c. cmp a b \<le> 0 \<Longrightarrow> cmp b c \<le> 0 \<Longrightarrow> cmp a c \<le> 0"
    and tot: "\<And>a b. cmp a b \<le> 0 \<or> cmp b a \<le> 0"
  shows "sorted_wrt (\<lambda>a b. cmp a b \<le> 0) (array_sort cmp xs)"
proof (induction xs)
  case Nil
  show ?case by (simp add: array_sort_def)
next
  case (Cons x xs)
  have "array_sort cmp (x # xs) = insert_by cmp x (array_sort cmp xs)"
    by (simp add: array_sort_def)
  with Cons sorted_insert_by[of cmp, OF tr tot] show ?case by simp
qed

lemma filter_insert_by:
  assumes eq: "\<And>a b. P a \<Longrightarrow> P b \<Longrightarrow> cmp a b \<le> 0"
  shows "filter P (insert_by cmp x ys) = (if P x then x # filter P ys else filter P ys)"
  using eq by (induction ys) auto

lemma filter_array_sort:
  assumes eq: "\<And>a b. P a \<Longrightarrow> P b \<Longrightarrow> cmp a b \<le> 0"
  shows "filter P (array_sort cmp xs) = filter P xs"
proof (induction xs)
  case Nil
  show ?case by (simp add: array_sort_def)
next
  case (Cons x xs)
  have "array_sort cmp (x # xs) = insert_by cmp x (array_sort cmp xs)"
    by (simp add: array_sort_def)
  with Cons filter_insert_by[of P cmp, OF eq] show ?case by simp
qed

lemma sorted_null_first:
  assumes "sorted_wrt (\<lambda>a b. compareEntries a b \<le> 0) out" "i < j" "j < length out"
    "timestamp (out ! j) = None"
  shows "timestamp (out ! i) = None"
proof -
  from assms have "compareEntries (out ! i) (out ! j) \<le> 0"
    by (simp add: sorted_wrt_iff_nth_less)
  with assms(4) show ?thesis
    by (auto simp: compareEntries_def split: option.splits if_splits)
qed

text \<open>
  Claim C1. The comparator orders two entries without a timestamp by \<open>originalIndex\<close>,
  ascending; an entry without a timestamp before any entry with one; two entries with
  timestamps by time, the later first. The sorted array is a rearrangement of the
  entries in the comparator's order; entries with equal keys (the same instant, or no
  timestamp and the same index) keep the order in which they were met; the later of two
  timestamps comes first; and no entry without a timestamp stands behind one with a
  timestamp.
\<close>

theorem sortTimestampedEntries_order:
  "(timestamp a = None \<and> timestamp b = None \<longrightarrow>
      compareEntries a b = originalIndex a - originalIndex b)
   \<and> (timestamp a = None \<and> timestamp b \<noteq> None \<longrightarrow>
      compareEntries a b < 0 \<and> compareEntries b a > 0)
   \<and> (\<forall>ta tb. timestamp a = Some ta \<and> timestamp b = Some tb \<longrightarrow>
      compareEntries a b = tb - ta)
   \<and> mset (sortTimestampedEntries entries) = mset entries
   \<and> sorted_wrt (\<lambda>x y. compareEntries x y \<le> 0) (sortTimestampedEntries entries)
   \<and> (\<forall>t. filter (\<lambda>e. timestamp e = Some t) (sortTimestampedEntries entries)
           = filter (\<lambda>e. timestamp e = Some t) entries)
   \<and> (\<forall>k. filter (\<lambda>e. timestamp e = None \<and> originalIndex e = k) (sortTimestampedEntries entries)
           = filter (\<lambda>e. timestamp e = None \<and> originalIndex e = k) entries)
   \<and> (\<forall>i j ti tj. i < j \<and> j < length entries
          \<and> timestamp (sortTimestampedEntries entries ! i) = Some ti
          \<and> timestamp (sortTimestampedEntries entries ! j) = Some tj \<longrightarrow> tj \<le> ti)
   \<and> (\<forall>i j. i < j \<and> j < length entries
          \<and> timestamp (sortTimestampedEntries entries ! j) = None
          \<longrightarrow> timestamp (sortTimestampedEntries entries ! i) = None)"
proof -
  let ?out = "sortTimestampedEntries entries"
  have len: "length ?out = length entries"
    using mset_array_sort[of compareEntries entries]
    by (metis sortTimestampedEntries_def size_mset)
  have srt: "sorted_wrt (\<lambda>x y. compareEntries x y \<le> 0) ?out"
    unfolding sortTimestampedEntries_def
    by (rule sorted_array_sort) (erule (1) compareEntries_trans, rule compareEntries_total)
  have c1: "timestamp a = None \<and> timestamp b = None \<longrightarrow>
      compareEntries a b = originalIndex a - originalIndex b"
    by (simp add: compareEntries_def)
  have c2: "timestamp a = None \<and> timestamp b \<noteq> None \<longrightarrow>
      compareEntries a b < 0 \<and> compareEntries b a > 0"
    by (auto simp: compareEntries_def split: option.splits)
  have c3: "\<forall>ta tb. timestamp a = Some ta \<and> timestamp b = Some tb \<longrightarrow>
      compareEntries a b = tb - ta"
    by (simp add: compareEntries_def)
  have c4: "mset ?out = mset entries"
    by (simp add: sortTimestampedEntries_def mset_array_sort)
  have c6: "\<forall>t. filter (\<lambda>e. timestamp e = Some t) ?out = filter (\<lambda>e. timestamp e = Some t) entries"
    unfolding sortTimestampedEntries_def
    by (intro allI filter_array_sort) (simp add: compareEntries_def)
  have c7: "\<forall>k. filter (\<lambda>e. timestamp e = None \<and> originalIndex e = k) ?out
           = filter (\<lambda>e. timestamp e = None \<and> originalIndex e = k) entries"
    unfolding sortTimestampedEntries_def
    by (intro allI filter_array_sort) (simp add: compareEntries_def)
  have c8: "\<forall>i j ti tj. i < j \<and> j < length entries
          \<and> timestamp (?out ! i) = Some ti \<and> timestamp (?out ! j) = Some tj \<longrightarrow> tj \<le> ti"
  proof (intro allI impI)
    fix i j ti tj
    assume h: "i < j \<and> j < length entries
          \<and> timestamp (?out ! i) = Some ti \<and> timestamp (?out ! j) = Some tj"
    with srt len have "compareEntries (?out ! i) (?out ! j) \<le> 0"
      by (simp add: sorted_wrt_iff_nth_less)
    with h show "tj \<le> ti" by (simp add: compareEntries_def)
  qed
  have c9: "\<forall>i j. i < j \<and> j < length entries \<and> timestamp (?out ! j) = None
          \<longrightarrow> timestamp (?out ! i) = None"
    using sorted_null_first[OF srt] len by auto
  from c1 c2 c3 c4 srt c6 c7 c8 c9 show ?thesis by blast
qed

theorem sortTimestampedEntries_order_witness:
  "compareEntries \<lparr>line = ''- 202401 - x'', timestamp = None, originalIndex = 1\<rparr>
                  \<lparr>line = ''- 2024010112 - y'', timestamp = None, originalIndex = 4\<rparr> = - 3
   \<and> compareEntries \<lparr>line = ''- 2024010112 - y'', timestamp = None, originalIndex = 4\<rparr>
                  \<lparr>line = ''- 19700101 - a'', timestamp = Some 0, originalIndex = 0\<rparr> < 0
   \<and> compareEntries \<lparr>line = ''- 19700101 - a'', timestamp = Some 0, originalIndex = 0\<rparr>
                  \<lparr>line = ''- 19700102 - b'', timestamp = Some 86400000, originalIndex = 2\<rparr> = 86400000
   \<and> sortTimestampedEntries
        [\<lparr>line = ''- 19700101 - a'', timestamp = Some 0, originalIndex = 0\<rparr>,
         \<lparr>line = ''- 202401 - x'', timestamp = None, originalIndex = 1\<rparr>,
         \<lparr>line = ''- 19700102 - b'', timestamp = Some 86400000, originalIndex = 2\<rparr>,
         \<lparr>line = ''- 197001010000 - c'', timestamp = Some 0, originalIndex = 3\<rparr>,
         \<lparr>line = ''- 2024010112 - y'', timestamp = None, originalIndex = 4\<rparr>]
      = [\<lparr>line = ''- 202401 - x'', timestamp = None, originalIndex = 1\<rparr>,
         \<lparr>line = ''- 2024010112 - y'', timestamp = None, originalIndex = 4\<rparr>,
         \<lparr>line = ''- 19700102 - b'', timestamp = Some 86400000, originalIndex = 2\<rparr>,
         \<lparr>line = ''- 19700101 - a'', timestamp = Some 0, originalIndex = 0\<rparr>,
         \<lparr>line = ''- 197001010000 - c'', timestamp = Some 0, originalIndex = 3\<rparr>]"
  using sortTimestampedEntries_order
    [of "\<lparr>line = ''- 202401 - x'', timestamp = None, originalIndex = 1\<rparr>"
        "\<lparr>line = ''- 2024010112 - y'', timestamp = None, originalIndex = 4\<rparr>"
        "[\<lparr>line = ''- 19700101 - a'', timestamp = Some 0, originalIndex = 0\<rparr>,
         \<lparr>line = ''- 202401 - x'', timestamp = None, originalIndex = 1\<rparr>,
         \<lparr>line = ''- 19700102 - b'', timestamp = Some 86400000, originalIndex = 2\<rparr>,
         \<lparr>line = ''- 197001010000 - c'', timestamp = Some 0, originalIndex = 3\<rparr>,
         \<lparr>line = ''- 2024010112 - y'', timestamp = None, originalIndex = 4\<rparr>]"]
  by (simp add: sortTimestampedEntries_def array_sort_def compareEntries_def)

section \<open>The timestamp patterns and the scan\<close>

lemma space_not_digit: "js_space c \<Longrightarrow> \<not> is_digit c"
  by (auto simp: js_space_def is_digit_def)

lemma dash_not_space: "\<not> js_space (CHR ''-'')"
  by (simp add: js_space_def)

lemma dash_not_digit: "\<not> is_digit (CHR ''-'')"
  by (simp add: is_digit_def)

lemma takeWhile_run:
  "list_all P xs \<Longrightarrow> (r = [] \<or> \<not> P (hd r)) \<Longrightarrow> takeWhile P (xs @ r) = xs"
  by (induction xs) (cases r; auto)+

lemma dropWhile_run:
  "list_all P xs \<Longrightarrow> (r = [] \<or> \<not> P (hd r)) \<Longrightarrow> dropWhile P (xs @ r) = r"
  by (induction xs) (cases r; auto)+

lemma spaces1_run:
  "all_space ws \<Longrightarrow> (r = [] \<or> \<not> js_space (hd r)) \<Longrightarrow> spaces1 (ws @ r) = Some r"
  by (simp add: spaces1_def all_space_def takeWhile_run dropWhile_run)

lemma spaces1_some_any:
  "all_space ws \<Longrightarrow> spaces1 (ws @ r) \<noteq> None"
  by (cases ws) (auto simp: spaces1_def all_space_def)

lemma spaces1_SomeD:
  "spaces1 s = Some r \<Longrightarrow> \<exists>ws. all_space ws \<and> s = ws @ r \<and> (r = [] \<or> \<not> js_space (hd r))"
proof -
  assume h: "spaces1 s = Some r"
  then have ne: "takeWhile js_space s \<noteq> []" and r: "r = dropWhile js_space s"
    by (auto simp: spaces1_def split: if_splits)
  have "all_space (takeWhile js_space s)"
    using ne by (simp add: all_space_def list_all_iff) (meson set_takeWhileD)
  moreover have "s = takeWhile js_space s @ r" using r by simp
  moreover have "r = [] \<or> \<not> js_space (hd r)" using r hd_dropWhile[of js_space s] by blast
  ultimately show ?thesis by blast
qed

lemma lit_Some_iff: "lit c s = Some r \<longleftrightarrow> s = c # r"
  by (auto simp: lit_def split: list.splits)

text \<open>The three pieces of both patterns after the digits.\<close>

lemma row_matcher_iff:
  assumes "ds \<noteq> []"
  shows "row_shape ln ds \<longleftrightarrow>
     (\<exists>r1 r2 r3 r4 r5. lit (CHR ''-'') ln = Some r1 \<and> spaces1 r1 = Some r2
        \<and> takeWhile is_digit r2 = ds \<and> spaces1 (dropWhile is_digit r2) = Some r3
        \<and> lit (CHR ''-'') r3 = Some r4 \<and> spaces1 r4 = Some r5)"
    (is "?L \<longleftrightarrow> ?R")
proof
  assume ?L
  then obtain ws1 ws2 ws3 rest where
    ln: "ln = CHR ''-'' # ws1 @ ds @ ws2 @ CHR ''-'' # ws3 @ rest"
    and w1: "all_space ws1" and d: "list_all is_digit ds" and w2: "all_space ws2"
    and w3: "all_space ws3"
    by (auto simp: row_shape_def)
  let ?t3 = "CHR ''-'' # ws3 @ rest"
  let ?t2 = "ws2 @ ?t3"
  let ?t1 = "ds @ ?t2"
  have hd1: "\<not> js_space (hd ?t1)"
    using assms d by (cases ds) (auto dest: space_not_digit)
  have hd2: "\<not> is_digit (hd ?t2)"
    using w2 by (cases ws2) (auto simp: all_space_def dest: space_not_digit)
  have a: "lit (CHR ''-'') ln = Some (ws1 @ ?t1)" by (simp add: ln lit_Some_iff)
  have b: "spaces1 (ws1 @ ?t1) = Some ?t1" using w1 hd1 by (intro spaces1_run) auto
  have c: "takeWhile is_digit ?t1 = ds" using d hd2 by (intro takeWhile_run) auto
  have c': "dropWhile is_digit ?t1 = ?t2" using d hd2 by (intro dropWhile_run) auto
  have e: "spaces1 ?t2 = Some ?t3" using w2 by (intro spaces1_run) (auto simp: dash_not_space)
  have f: "lit (CHR ''-'') ?t3 = Some (ws3 @ rest)" by (simp add: lit_Some_iff)
  obtain r5 where g: "spaces1 (ws3 @ rest) = Some r5" using spaces1_some_any[OF w3] by auto
  from a b c c' e f g show ?R by (metis (no_types))
next
  assume ?R
  then obtain r1 r2 r3 r4 r5 where a: "lit (CHR ''-'') ln = Some r1" and b: "spaces1 r1 = Some r2"
    and c: "takeWhile is_digit r2 = ds" and e: "spaces1 (dropWhile is_digit r2) = Some r3"
    and f: "lit (CHR ''-'') r3 = Some r4" and g: "spaces1 r4 = Some r5"
    by blast
  from b obtain ws1 where w1: "all_space ws1" "r1 = ws1 @ r2" using spaces1_SomeD by blast
  from e obtain ws2 where w2: "all_space ws2" "dropWhile is_digit r2 = ws2 @ r3"
    using spaces1_SomeD by blast
  from g obtain ws3 where w3: "all_space ws3" "r4 = ws3 @ r5" using spaces1_SomeD by blast
  have r2: "r2 = ds @ ws2 @ r3" using c w2(2) by (metis takeWhile_dropWhile_id)
  have d: "list_all is_digit ds" using c by (auto simp: list_all_iff dest: set_takeWhileD)
  have "ln = CHR ''-'' # ws1 @ ds @ ws2 @ CHR ''-'' # ws3 @ r5"
    using a f w1(2) r2 w3(2) by (simp add: lit_Some_iff)
  with w1(1) w2(1) w3(1) d show ?L unfolding row_shape_def by blast
qed

lemma strict_match_iff:
  "strict_match ln = Some ds \<longleftrightarrow> (length ds = 8 \<or> length ds = 12) \<and> row_shape ln ds"
proof (cases "ds = []")
  case True
  then show ?thesis
    by (auto simp: strict_match_def Let_def split: bind_splits if_splits)
next
  case False
  show ?thesis
    unfolding row_matcher_iff[OF False]
    by (auto simp: strict_match_def Let_def split: bind_splits if_splits)
qed

lemma loose_match_iff:
  "loose_match ln \<longleftrightarrow> (\<exists>ds. 8 \<le> length ds \<and> length ds \<le> 12 \<and> row_shape ln ds)"
proof
  assume "loose_match ln"
  then obtain r1 r2 r3 r4 r5 where a: "lit (CHR ''-'') ln = Some r1 \<and> spaces1 r1 = Some r2
        \<and> spaces1 (dropWhile is_digit r2) = Some r3
        \<and> lit (CHR ''-'') r3 = Some r4 \<and> spaces1 r4 = Some r5"
    and len: "8 \<le> length (takeWhile is_digit r2)" "length (takeWhile is_digit r2) \<le> 12"
    by (auto simp: loose_match_def Let_def split: bind_splits if_splits)
  from len have ne: "takeWhile is_digit r2 \<noteq> []" by auto
  from a have "row_shape ln (takeWhile is_digit r2)"
    unfolding row_matcher_iff[OF ne] by blast
  with len show "\<exists>ds. 8 \<le> length ds \<and> length ds \<le> 12 \<and> row_shape ln ds" by blast
next
  assume "\<exists>ds. 8 \<le> length ds \<and> length ds \<le> 12 \<and> row_shape ln ds"
  then obtain ds where len: "8 \<le> length ds" "length ds \<le> 12" and sh: "row_shape ln ds" by blast
  from len have ne: "ds \<noteq> []" by auto
  from sh len show "loose_match ln"
    unfolding row_matcher_iff[OF ne]
    by (auto simp: loose_match_def Let_def split: bind_splits if_splits)
qed


lemma scanSection_eq:
  "scanSection tz lines is (es, ns) =
     (es @ map (entryAt tz lines) (filter (\<lambda>i. isTimestampRow tz (lines ! nat i)) is),
      ns @ map (\<lambda>i. lines ! nat i) (filter (\<lambda>i. \<not> isTimestampRow tz (lines ! nat i)) is))"
  by (induction "is" arbitrary: es ns) (simp_all add: Let_def isTimestampRow_def entryAt_def)

lemma parseTimestamp_Some_iff:
  "parseTimestamp tz ln \<noteq> None \<longleftrightarrow> (\<exists>ds. strict_match ln = Some ds)"
proof -
  have "\<And>ds. strict_match ln = Some ds \<Longrightarrow> length ds = 8 \<or> length ds = 12"
    by (simp add: strict_match_iff)
  then show ?thesis
    by (auto simp: parseTimestamp_def Let_def split: option.splits)
qed

lemma strict_imp_loose: "parseTimestamp tz ln \<noteq> None \<Longrightarrow> loose_match ln"
proof -
  assume "parseTimestamp tz ln \<noteq> None"
  then obtain ds where "length ds = 8 \<or> length ds = 12" and sh: "row_shape ln ds"
    unfolding parseTimestamp_Some_iff strict_match_iff by blast
  then have "8 \<le> length ds \<and> length ds \<le> 12" by auto
  with sh show ?thesis unfolding loose_match_iff by blast
qed

text \<open>
  Claim C2, as amended. \<open>parseTimestamp\<close> returns a timestamp exactly when the line is
  \<^verbatim>\<open>-\<close>, one or more whitespace characters, exactly 8 or exactly 12 digits, one or more
  whitespace characters, \<^verbatim>\<open>-\<close> and one or more whitespace characters; 8 digits decode as
  \<^verbatim>\<open>new Date(YYYY, MM - 1, DD)\<close>, local midnight, and 12 digits as
  \<^verbatim>\<open>new Date(YYYY, MM - 1, DD, HH, mm)\<close>. The loose pattern accepts the same shape with 8 to
  12 digits. The scan puts a line of the strict shape into the timestamp bucket with its
  timestamp, a line of the loose shape only into the same bucket with no timestamp, and
  any other line among the non-timestamped lines.
\<close>

theorem timestamp_row_classification:
  "(parseTimestamp tz ln \<noteq> None \<longleftrightarrow>
      (\<exists>ds. (length ds = 8 \<or> length ds = 12) \<and> row_shape ln ds))
   \<and> (\<forall>ds. length ds = 8 \<and> row_shape ln ds \<longrightarrow>
         parseTimestamp tz ln =
           Some (newDate tz (parseInt (take 4 ds)) (parseInt (take 2 (drop 4 ds)) - 1)
                   (parseInt (take 2 (drop 6 ds))) 0 0))
   \<and> (\<forall>ds. length ds = 12 \<and> row_shape ln ds \<longrightarrow>
         parseTimestamp tz ln =
           Some (newDate tz (parseInt (take 4 ds)) (parseInt (take 2 (drop 4 ds)) - 1)
                   (parseInt (take 2 (drop 6 ds))) (parseInt (take 2 (drop 8 ds)))
                   (parseInt (take 2 (drop 10 ds)))))
   \<and> (loose_match ln \<longleftrightarrow> (\<exists>ds. 8 \<le> length ds \<and> length ds \<le> 12 \<and> row_shape ln ds))
   \<and> scanSection tz lines [i] ([], []) =
       (if \<exists>ds. (length ds = 8 \<or> length ds = 12) \<and> row_shape (lines ! nat i) ds
        then ([\<lparr>line = lines ! nat i, timestamp = parseTimestamp tz (lines ! nat i),
                originalIndex = i\<rparr>], [])
        else if \<exists>ds. 8 \<le> length ds \<and> length ds \<le> 12 \<and> row_shape (lines ! nat i) ds
        then ([\<lparr>line = lines ! nat i, timestamp = None, originalIndex = i\<rparr>], [])
        else ([], [lines ! nat i]))"
proof -
  have strict: "\<And>l. parseTimestamp tz l \<noteq> None \<longleftrightarrow>
      (\<exists>ds. (length ds = 8 \<or> length ds = 12) \<and> row_shape l ds)"
    unfolding parseTimestamp_Some_iff strict_match_iff by blast
  have d8: "\<forall>ds. length ds = 8 \<and> row_shape ln ds \<longrightarrow>
         parseTimestamp tz ln =
           Some (newDate tz (parseInt (take 4 ds)) (parseInt (take 2 (drop 4 ds)) - 1)
                   (parseInt (take 2 (drop 6 ds))) 0 0)"
  proof (intro allI impI)
    fix ds assume "length ds = 8 \<and> row_shape ln ds"
    then have "strict_match ln = Some ds" and "length ds = 8" by (simp_all add: strict_match_iff)
    then show "parseTimestamp tz ln =
           Some (newDate tz (parseInt (take 4 ds)) (parseInt (take 2 (drop 4 ds)) - 1)
                   (parseInt (take 2 (drop 6 ds))) 0 0)"
      by (simp add: parseTimestamp_def substring_def)
  qed
  have d12: "\<forall>ds. length ds = 12 \<and> row_shape ln ds \<longrightarrow>
         parseTimestamp tz ln =
           Some (newDate tz (parseInt (take 4 ds)) (parseInt (take 2 (drop 4 ds)) - 1)
                   (parseInt (take 2 (drop 6 ds))) (parseInt (take 2 (drop 8 ds)))
                   (parseInt (take 2 (drop 10 ds))))"
  proof (intro allI impI)
    fix ds assume "length ds = 12 \<and> row_shape ln ds"
    then have "strict_match ln = Some ds" and "length ds = 12" by (simp_all add: strict_match_iff)
    then show "parseTimestamp tz ln =
           Some (newDate tz (parseInt (take 4 ds)) (parseInt (take 2 (drop 4 ds)) - 1)
                   (parseInt (take 2 (drop 6 ds))) (parseInt (take 2 (drop 8 ds)))
                   (parseInt (take 2 (drop 10 ds))))"
      by (simp add: parseTimestamp_def substring_def)
  qed
  have loose: "\<And>l. loose_match l \<longleftrightarrow> (\<exists>ds. 8 \<le> length ds \<and> length ds \<le> 12 \<and> row_shape l ds)"
    by (rule loose_match_iff)
  have scan: "scanSection tz lines [i] ([], []) =
       (if \<exists>ds. (length ds = 8 \<or> length ds = 12) \<and> row_shape (lines ! nat i) ds
        then ([\<lparr>line = lines ! nat i, timestamp = parseTimestamp tz (lines ! nat i),
                originalIndex = i\<rparr>], [])
        else if \<exists>ds. 8 \<le> length ds \<and> length ds \<le> 12 \<and> row_shape (lines ! nat i) ds
        then ([\<lparr>line = lines ! nat i, timestamp = None, originalIndex = i\<rparr>], [])
        else ([], [lines ! nat i]))"
    unfolding strict[symmetric] loose[symmetric]
    by (auto simp: scanSection_eq isTimestampRow_def entryAt_def)
  from strict[of ln] d8 d12 loose[of ln] scan show ?thesis by blast
qed

lemma row_shape_example8: "row_shape ''- 20240101 - A'' ''20240101''"
  unfolding row_shape_def
  by (rule exI[of _ "'' ''"], rule exI[of _ "'' ''"], rule exI[of _ "'' ''"], rule exI[of _ "''A''"])
     (simp add: all_space_def js_space_def is_digit_def)

lemma row_shape_example9: "row_shape ''- 202401011 - B'' ''202401011''"
  unfolding row_shape_def
  by (rule exI[of _ "'' ''"], rule exI[of _ "'' ''"], rule exI[of _ "'' ''"], rule exI[of _ "''B''"])
     (simp add: all_space_def js_space_def is_digit_def)

lemma newDate_example8: "newDate 0 (parseInt (take 4 ''20240101'')) (parseInt (take 2 (drop 4 ''20240101'')) - 1)
                   (parseInt (take 2 (drop 6 ''20240101''))) 0 0 = 1704067200000"
  by code_simp

lemma parseTimestamp_example9: "parseTimestamp 0 ''- 202401011 - B'' = None"
  by code_simp

theorem timestamp_row_classification_witness:
  "length ''20240101'' = 8 \<and> row_shape ''- 20240101 - A'' ''20240101''
   \<and> parseTimestamp 0 ''- 20240101 - A'' = Some 1704067200000
   \<and> loose_match ''- 202401011 - B''
   \<and> scanSection 0 [''- 202401011 - B''] [0] ([], [])
       = ([\<lparr>line = ''- 202401011 - B'', timestamp = None, originalIndex = 0\<rparr>], [])"
proof -
  note t = timestamp_row_classification[of 0 "''- 202401011 - B''" "[''- 202401011 - B'']" 0]
  note u = timestamp_row_classification[of 0 "''- 20240101 - A''" "[]" 0]
  have d8: "\<forall>ds. length ds = 8 \<and> row_shape ''- 20240101 - A'' ds \<longrightarrow>
         parseTimestamp 0 ''- 20240101 - A'' =
           Some (newDate 0 (parseInt (take 4 ds)) (parseInt (take 2 (drop 4 ds)) - 1)
                   (parseInt (take 2 (drop 6 ds))) 0 0)"
    using u by blast
  have a: "parseTimestamp 0 ''- 20240101 - A'' = Some 1704067200000"
    using d8[rule_format, of "''20240101''"] row_shape_example8 newDate_example8 by simp
  have ex: "\<exists>ds. 8 \<le> length ds \<and> length ds \<le> 12 \<and> row_shape ''- 202401011 - B'' ds"
    by (rule exI[of _ "''202401011''"]) (simp add: row_shape_example9)
  have b: "loose_match ''- 202401011 - B''"
    using t ex by blast
  have nostrict: "\<not> (\<exists>ds. (length ds = 8 \<or> length ds = 12) \<and> row_shape ''- 202401011 - B'' ds)"
    using t parseTimestamp_example9 by blast
  have "scanSection 0 [''- 202401011 - B''] [0] ([], []) =
       (if \<exists>ds. (length ds = 8 \<or> length ds = 12) \<and> row_shape ([''- 202401011 - B''] ! nat 0) ds
        then ([\<lparr>line = [''- 202401011 - B''] ! nat 0,
                timestamp = parseTimestamp 0 ([''- 202401011 - B''] ! nat 0),
                originalIndex = 0\<rparr>], [])
        else if \<exists>ds. 8 \<le> length ds \<and> length ds \<le> 12 \<and> row_shape ([''- 202401011 - B''] ! nat 0) ds
        then ([\<lparr>line = [''- 202401011 - B''] ! nat 0, timestamp = None, originalIndex = 0\<rparr>], [])
        else ([], [[''- 202401011 - B''] ! nat 0]))"
    using t by blast
  then have c: "scanSection 0 [''- 202401011 - B''] [0] ([], [])
       = ([\<lparr>line = ''- 202401011 - B'', timestamp = None, originalIndex = 0\<rparr>], [])"
    using nostrict ex by simp
  from a b c row_shape_example8 show ?thesis by simp
qed

text \<open>
  The claim as stated, with the single spaces of \<^verbatim>\<open>- \<close> and \<^verbatim>\<open> - \<close>, fails: a line with two
  spaces after the first dash is outside that grammar and still parses to a timestamp.
\<close>

theorem parseTimestamp_spec_grammar_counterexample:
  "parseTimestamp 0 ''-  20240101 - A'' = Some 1704067200000
   \<and> \<not> spec_strict_grammar ''-  20240101 - A''"
  by code_simp

section \<open>The section sorter\<close>

lemma findEnd_find:
  "findEnd lines cur is d =
     (case find (\<lambda>i. getHeadingLevel (lines ! nat i) > 0 \<and> getHeadingLevel (lines ! nat i) \<le> cur) is of
        None \<Rightarrow> d | Some i \<Rightarrow> i - 1)"
  by (induction "is") (simp_all add: Let_def)

lemma find_upto_None:
  "find P [s..e] = None \<longleftrightarrow> (\<forall>i. s \<le> i \<and> i \<le> e \<longrightarrow> \<not> P i)"
  by (auto simp: find_None_iff)

lemma shift_first:
  fixes s i :: int
  assumes "\<not> P s"
  shows "(s + 1 \<le> i \<and> i \<le> e \<and> P i \<and> (\<forall>j. s + 1 \<le> j \<and> j < i \<longrightarrow> \<not> P j))
     \<longleftrightarrow> (s \<le> i \<and> i \<le> e \<and> P i \<and> (\<forall>j. s \<le> j \<and> j < i \<longrightarrow> \<not> P j))"
    (is "?A \<longleftrightarrow> ?B")
proof
  assume a: ?A
  have "\<forall>j. s \<le> j \<and> j < i \<longrightarrow> \<not> P j"
  proof (intro allI impI)
    fix j assume j: "s \<le> j \<and> j < i"
    show "\<not> P j"
    proof (cases "j = s")
      case True
      then show ?thesis using assms by simp
    next
      case False
      then have "s + 1 \<le> j" using j by linarith
      then show ?thesis using a j by blast
    qed
  qed
  with a show ?B by auto
next
  assume b: ?B
  then have "i \<noteq> s" using assms by blast
  then have "s + 1 \<le> i" using b by linarith
  moreover have "\<forall>j. s + 1 \<le> j \<and> j < i \<longrightarrow> \<not> P j" using b by auto
  ultimately show ?A using b by blast
qed

lemma find_upto_Some:
  "find P [s..e] = Some i \<longleftrightarrow> s \<le> i \<and> i \<le> e \<and> P i \<and> (\<forall>j. s \<le> j \<and> j < i \<longrightarrow> \<not> P j)"
proof (induction "nat (e - s + 1)" arbitrary: s)
  case 0
  then have "[s..e] = []" by simp
  then show ?case by auto
next
  case (Suc n)
  then have le: "s \<le> e" by linarith
  then have unf: "[s..e] = s # [s + 1..e]" by (rule upto_rec1)
  have n: "n = nat (e - (s + 1) + 1)" using Suc(2) by linarith
  show ?case
  proof (cases "P s")
    case True
    then show ?thesis using le unf by auto
  next
    case False
    have "find P [s..e] = find P [s + 1..e]" using False unf by simp
    then have "find P [s..e] = Some i \<longleftrightarrow>
        s + 1 \<le> i \<and> i \<le> e \<and> P i \<and> (\<forall>j. s + 1 \<le> j \<and> j < i \<longrightarrow> \<not> P j)"
      using Suc(1)[OF n] by simp
    then show ?thesis unfolding shift_first[of P s, OF False] .
  qed
qed

lemma sectionBounds_range:
  assumes "sectionBounds lines sec = Inr (s, e)"
  shows "0 \<le> s \<and> s \<le> e + 1 \<and> e < int (length lines)"
proof (cases "sline sec = - 1")
  case True
  with assms show ?thesis by (simp add: sectionBounds_def)
next
  case False
  with assms have h: "0 \<le> sline sec" "sline sec < int (length lines)" and s: "s = sline sec + 1"
    and e: "e = findEnd lines (getHeadingLevel (lines ! nat (sline sec))) [s..int (length lines) - 1]
                  (int (length lines) - 1)"
    by (auto simp: sectionBounds_def Let_def split: if_splits)
  let ?P = "\<lambda>i. getHeadingLevel (lines ! nat i) > 0
               \<and> getHeadingLevel (lines ! nat i) \<le> getHeadingLevel (lines ! nat (sline sec))"
  show ?thesis
  proof (cases "find ?P [s..int (length lines) - 1]")
    case None
    then have "e = int (length lines) - 1" using e by (simp add: findEnd_find)
    with h s show ?thesis by simp
  next
    case (Some i)
    then have "e = i - 1" using e by (simp add: findEnd_find)
    moreover from Some have "s \<le> i \<and> i \<le> int (length lines) - 1"
      unfolding find_upto_Some by blast
    ultimately show ?thesis using h s by simp
  qed
qed

lemma map_nth_upto:
  assumes "0 \<le> s" "e < int (length xs)"
  shows "map (\<lambda>i. xs ! nat i) [s..e] = take (nat (e - s + 1)) (drop (nat s) xs)"
proof (rule nth_equalityI)
  show "length (map (\<lambda>i. xs ! nat i) [s..e]) = length (take (nat (e - s + 1)) (drop (nat s) xs))"
    using assms by simp
next
  fix k assume "k < length (map (\<lambda>i. xs ! nat i) [s..e])"
  then have k: "int k < e - s + 1" by simp
  then have "[s..e] ! k = s + int k" by (intro nth_upto) simp
  moreover have "nat (s + int k) = nat s + k" using assms by simp
  ultimately show "map (\<lambda>i. xs ! nat i) [s..e] ! k = take (nat (e - s + 1)) (drop (nat s) xs) ! k"
    using k assms by simp
qed

text \<open>The three loops that write, on a state whose written part is \<open>pre\<close>.\<close>

lemma fold_putEntry:
  assumes "int (length pre + length es) \<le> e + 1" "length es \<le> length rest"
  shows "fold (putEntry e) es (pre @ rest, int (length pre)) =
           (pre @ map line es @ drop (length es) rest, int (length pre + length es))"
  using assms
proof (induction es arbitrary: pre rest)
  case Nil
  then show ?case by simp
next
  case (Cons x xs)
  then obtain r rs where rest: "rest = r # rs" by (cases rest) auto
  have step: "putEntry e x (pre @ rest, int (length pre)) = ((pre @ [line x]) @ rs, int (length (pre @ [line x])))"
    using Cons.prems by (simp add: putEntry_def rest)
  have "fold (putEntry e) xs ((pre @ [line x]) @ rs, int (length (pre @ [line x]))) =
      ((pre @ [line x]) @ map line xs @ drop (length xs) rs,
       int (length (pre @ [line x]) + length xs))"
    using Cons.prems rest by (intro Cons.IH) auto
  then show ?case using step rest by simp
qed

lemma fold_putLine:
  assumes "int (length pre + length (filter (\<lambda>l. js_trim l \<noteq> []) ns)) \<le> e + 1"
    "length (filter (\<lambda>l. js_trim l \<noteq> []) ns) \<le> length rest"
  shows "fold (putLine e) ns (pre @ rest, int (length pre)) =
           (pre @ filter (\<lambda>l. js_trim l \<noteq> []) ns
              @ drop (length (filter (\<lambda>l. js_trim l \<noteq> []) ns)) rest,
            int (length pre + length (filter (\<lambda>l. js_trim l \<noteq> []) ns)))"
  using assms
proof (induction ns arbitrary: pre rest)
  case Nil
  then show ?case by simp
next
  case (Cons x xs)
  show ?case
  proof (cases "js_trim x \<noteq> []")
    case False
    then have "putLine e x (pre @ rest, int (length pre)) = (pre @ rest, int (length pre))"
      by (simp add: putLine_def)
    then show ?thesis using False Cons by simp
  next
    case True
    with Cons.prems obtain r rs where rest: "rest = r # rs" by (cases rest) auto
    have step: "putLine e x (pre @ rest, int (length pre)) = ((pre @ [x]) @ rs, int (length (pre @ [x])))"
      using Cons.prems True by (simp add: putLine_def rest)
    have "fold (putLine e) xs ((pre @ [x]) @ rs, int (length (pre @ [x]))) =
      ((pre @ [x]) @ filter (\<lambda>l. js_trim l \<noteq> []) xs
              @ drop (length (filter (\<lambda>l. js_trim l \<noteq> []) xs)) rs,
       int (length (pre @ [x]) + length (filter (\<lambda>l. js_trim l \<noteq> []) xs)))"
      using Cons.prems rest True by (intro Cons.IH) auto
    then show ?thesis using step rest True by simp
  qed
qed

lemma fold_blank:
  assumes "n = nat (e + 1 - int (length pre))" "n \<le> length rest"
  shows "fold (\<lambda>i ls. ls[nat i := []]) [int (length pre)..e] (pre @ rest) =
           pre @ replicate n [] @ drop n rest"
  using assms
proof (induction n arbitrary: pre rest)
  case 0
  then have "[int (length pre)..e] = []" by simp
  then show ?case by simp
next
  case (Suc n)
  then obtain r rs where rest: "rest = r # rs" by (cases rest) auto
  from Suc.prems have le: "int (length pre) \<le> e" by linarith
  then have unf: "[int (length pre)..e] = int (length pre) # [int (length (pre @ [[]]))..e]"
    using upto_rec1[OF le] by (simp add: add.commute)
  have "fold (\<lambda>i ls. ls[nat i := []]) [int (length (pre @ [[]]))..e] ((pre @ [[]]) @ rs) =
           (pre @ [[]]) @ replicate n [] @ drop n rs"
    using Suc.prems rest by (intro Suc.IH) auto
  then show ?case using unf rest by simp
qed

lemma rebuild_eq:
  assumes r: "0 \<le> s" "s \<le> e + 1" "e < int (length lines)"
    and len: "length es + length ns = nat (e - s + 1)"
  shows "rebuild lines s e es ns =
           take (nat s) lines @ map line es @ filter (\<lambda>l. js_trim l \<noteq> []) ns
             @ replicate (length ns - length (filter (\<lambda>l. js_trim l \<noteq> []) ns)) []
             @ drop (nat (e + 1)) lines"
proof -
  let ?pre = "take (nat s) lines"
  let ?n = "nat (e - s + 1)"
  let ?B = "filter (\<lambda>l. js_trim l \<noteq> []) ns"
  have lp: "length ?pre = nat s" using r by simp
  have ip: "int (length ?pre) = s" using r by simp
  have nle: "?n \<le> length (drop (nat s) lines)" using r by simp
  have bl: "length ?B \<le> length ns" by simp
  have "clearSection [s..e] lines =
          fold (\<lambda>i ls. ls[nat i := []]) [int (length ?pre)..e] (?pre @ drop (nat s) lines)"
    by (simp only: clearSection_def ip append_take_drop_id)
  also have "\<dots> = ?pre @ replicate ?n [] @ drop ?n (drop (nat s) lines)"
  proof (rule fold_blank)
    show "nat (e - s + 1) = nat (e + 1 - int (length (take (nat s) lines)))"
      unfolding ip by (simp add: algebra_simps)
    show "nat (e - s + 1) \<le> length (drop (nat s) lines)" by (rule nle)
  qed
  finally have c0: "clearSection [s..e] lines = ?pre @ replicate ?n [] @ drop ?n (drop (nat s) lines)" .
  have "?n + nat s = nat (e + 1)" using r by linarith
  then have c: "clearSection [s..e] lines = ?pre @ replicate ?n [] @ drop (nat (e + 1)) lines"
    using c0 by (simp only: drop_drop)
  let ?rest1 = "replicate ?n [] @ drop (nat (e + 1)) lines"
  have e1: "fold (putEntry e) es (?pre @ ?rest1, int (length ?pre)) =
      (?pre @ map line es @ drop (length es) ?rest1, int (length ?pre + length es))"
    using len r by (intro fold_putEntry) (simp_all add: lp)
  have d1: "drop (length es) ?rest1 = replicate (length ns) [] @ drop (nat (e + 1)) lines"
    using len by simp
  let ?pre2 = "?pre @ map line es"
  let ?rest2 = "replicate (length ns) [] @ drop (nat (e + 1)) lines"
  have e2: "fold (putLine e) ns (?pre2 @ ?rest2, int (length ?pre2)) =
      (?pre2 @ ?B @ drop (length ?B) ?rest2, int (length ?pre2 + length ?B))"
  proof (rule fold_putLine)
    have "length ?pre2 = nat s + length es" using lp by simp
    then show "int (length ?pre2 + length ?B) \<le> e + 1" using len r length_filter_le[of "\<lambda>l. js_trim l \<noteq> []" ns] by linarith
    have "length ?rest2 \<ge> length ns" by simp
    then show "length ?B \<le> length ?rest2" using length_filter_le[of "\<lambda>l. js_trim l \<noteq> []" ns] by linarith
  qed
  have d2: "drop (length ?B) ?rest2 = replicate (length ns - length ?B) [] @ drop (nat (e + 1)) lines"
    using bl by simp
  let ?pre3 = "?pre2 @ ?B"
  let ?rest3 = "replicate (length ns - length ?B) [] @ drop (nat (e + 1)) lines"
  have e3: "fold (\<lambda>i ls. ls[nat i := []]) [int (length ?pre3)..e] (?pre3 @ ?rest3) =
           ?pre3 @ replicate (length ns - length ?B) [] @ drop (length ns - length ?B) ?rest3"
  proof (rule fold_blank)
    have "length ?pre3 = nat s + length es + length ?B" using lp by simp
    then show "length ns - length ?B = nat (e + 1 - int (length ?pre3))"
      using len r length_filter_le[of "\<lambda>l. js_trim l \<noteq> []" ns] by linarith
    show "length ns - length ?B \<le> length ?rest3" by simp
  qed
  have "rebuild lines s e es ns =
      fillRest e (fold (putLine e) ns (fold (putEntry e) es (?pre @ ?rest1, int (length ?pre))))"
    by (simp only: rebuild_def c ip)
  also have "\<dots> = fillRest e (fold (putLine e) ns (?pre2 @ ?rest2, int (length ?pre2)))"
    by (simp only: e1 d1) simp
  also have "\<dots> = fillRest e (?pre3 @ ?rest3, int (length ?pre3))"
    by (simp only: e2 d2) (simp add: add.assoc)
  also have "\<dots> = ?pre3 @ replicate (length ns - length ?B) [] @ drop (length ns - length ?B) ?rest3"
    unfolding fillRest_def prod.case by (rule e3)
  finally show ?thesis by simp
qed


lemma js_trim_Nil_iff: "js_trim l = [] \<longleftrightarrow> list_all js_space l"
proof
  assume "js_trim l = []"
  then have a: "\<forall>c \<in> set (dropWhile js_space l). js_space c" by (simp add: js_trim_def)
  have "dropWhile js_space l = []"
  proof (rule ccontr)
    assume ne: "dropWhile js_space l \<noteq> []"
    then have "\<not> js_space (hd (dropWhile js_space l))" by (rule hd_dropWhile)
    moreover have "hd (dropWhile js_space l) \<in> set (dropWhile js_space l)" using ne by simp
    ultimately show False using a by blast
  qed
  then show "list_all js_space l" unfolding dropWhile_eq_Nil_conv list_all_iff .
next
  assume "list_all js_space l"
  then have "dropWhile js_space l = []" unfolding dropWhile_eq_Nil_conv list_all_iff .
  then show "js_trim l = []" by (simp only: js_trim_def rev.simps dropWhile.simps)
qed

lemma nonblank_filter:
  "filter (\<lambda>l. js_trim l \<noteq> []) ns = filter (\<lambda>l. \<not> list_all js_space l) ns"
  by (simp add: js_trim_Nil_iff)

lemma row_not_blank:
  assumes "isTimestampRow tz ln"
  shows "\<not> list_all js_space ln"
proof -
  from assms have "loose_match ln" using strict_imp_loose unfolding isTimestampRow_def by blast
  then obtain ds where "row_shape ln ds" unfolding loose_match_iff by blast
  then obtain r where "ln = CHR ''-'' # r" unfolding row_shape_def by blast
  then show ?thesis by (simp add: dash_not_space)
qed

lemma scanSection_Nil:
  "scanSection tz lines is ([], []) =
     (map (entryAt tz lines) (filter (\<lambda>i. isTimestampRow tz (lines ! nat i)) is),
      map (\<lambda>i. lines ! nat i) (filter (\<lambda>i. \<not> isTimestampRow tz (lines ! nat i)) is))"
  by (simp add: scanSection_eq)

lemma scanSection_lengths:
  assumes "scanSection tz lines is ([], []) = (es, ns)"
  shows "length es + length ns = length is"
  using assms sum_length_filter_compl[of "\<lambda>i. isTimestampRow tz (lines ! nat i)" "is"]
  unfolding scanSection_Nil by auto

lemma line_entryAt: "map line (map (entryAt tz lines) is) = map (\<lambda>i. lines ! nat i) is"
  by (simp add: entryAt_def)

lemma scanSection_mset:
  assumes "scanSection tz lines is ([], []) = (es, ns)"
  shows "mset (map line es) + mset ns = mset (map (\<lambda>i. lines ! nat i) is)"
proof -
  let ?P = "\<lambda>i. isTimestampRow tz (lines ! nat i)"
  from assms have es: "map line es = map (\<lambda>i. lines ! nat i) (filter ?P is)"
    and ns: "ns = map (\<lambda>i. lines ! nat i) (filter (\<lambda>i. \<not> ?P i) is)"
    unfolding scanSection_Nil using line_entryAt by auto
  have "mset (filter ?P is) + mset (filter (\<lambda>i. \<not> ?P i) is) = mset is"
    by (induction "is") auto
  then have "image_mset (\<lambda>i. lines ! nat i) (mset (filter ?P is) + mset (filter (\<lambda>i. \<not> ?P i) is))
           = image_mset (\<lambda>i. lines ! nat i) (mset is)"
    by (rule arg_cong)
  then show ?thesis unfolding es ns mset_map image_mset_union .
qed

lemma scanSection_entries_not_blank:
  assumes "scanSection tz lines is ([], []) = (es, ns)" "x \<in> set es"
  shows "\<not> list_all js_space (line x)"
proof -
  from assms obtain i where "isTimestampRow tz (lines ! nat i)" "x = entryAt tz lines i"
    unfolding scanSection_Nil by auto
  then show ?thesis using row_not_blank by (simp add: entryAt_def)
qed

lemma split_nl_nonempty: "split_nl s \<noteq> []"
  by (induction s) (auto split: list.splits)

lemma split_nl_no_newline: "l \<in> set (split_nl s) \<Longrightarrow> CHR 0x0A \<notin> set l"
  by (induction s arbitrary: l) (auto split: list.splits if_splits)

lemma split_nl_append_line:
  "CHR 0x0A \<notin> set l \<Longrightarrow> split_nl (l @ CHR 0x0A # s) = l # split_nl s"
  by (induction l) (auto split: list.splits)

lemma split_nl_single: "CHR 0x0A \<notin> set l \<Longrightarrow> split_nl l = [l]"
  by (induction l) (auto split: list.splits)

lemma split_join_nl:
  "ls \<noteq> [] \<Longrightarrow> \<forall>l \<in> set ls. CHR 0x0A \<notin> set l \<Longrightarrow> split_nl (join_nl ls) = ls"
proof (induction ls rule: join_nl.induct)
  case 1
  then show ?case by simp
next
  case (2 l)
  then show ?case by (simp add: split_nl_single)
next
  case (3 l m ls)
  then show ?case by (simp add: split_nl_append_line)
qed

lemma join_split_nl: "join_nl (split_nl s) = s"
proof (induction s)
  case Nil
  show ?case by simp
next
  case (Cons c cs)
  obtain l ls where sp: "split_nl cs = l # ls" using split_nl_nonempty[of cs] by (cases "split_nl cs") auto
  show ?case
  proof (cases "c = CHR 0x0A")
    case True
    then show ?thesis using Cons sp by simp
  next
    case False
    then show ?thesis using Cons sp by (cases ls) auto
  qed
qed

lemma length_sortTimestampedEntries: "length (sortTimestampedEntries es) = length es"
  using mset_array_sort[of compareEntries es]
  by (metis sortTimestampedEntries_def size_mset)

text \<open>The lines written are lines of the document or empty, so they hold no line feed.\<close>

lemma scanned_lines_subset:
  assumes r: "0 \<le> s" "e < int (length lines)"
    and sc: "scanSection tz lines [s..e] ([], []) = (es, ns)"
  shows "set (map line es) \<union> set ns \<subseteq> set lines"
proof -
  have "mset (map line es) + mset ns = mset (take (nat (e - s + 1)) (drop (nat s) lines))"
    using scanSection_mset[OF sc] map_nth_upto[OF r] by simp
  then have "set_mset (mset (map line es) + mset ns)
      = set (take (nat (e - s + 1)) (drop (nat s) lines))"
    by (simp only: set_mset_mset)
  then have "set (map line es) \<union> set ns = set (take (nat (e - s + 1)) (drop (nat s) lines))"
    by simp
  also have "\<dots> \<subseteq> set lines"
    by (meson in_set_dropD in_set_takeD subsetI)
  finally show ?thesis .
qed

lemma sort_result_shape:
  assumes b: "sectionBounds (split_nl content) sec = Inr (s, e)"
    and sc: "scanSection tz (split_nl content) [s..e] ([], []) = (es, ns)" and ne: "es \<noteq> []"
    and new: "new = take (nat s) (split_nl content) @ map line (sortTimestampedEntries es)
                    @ filter (\<lambda>l. \<not> list_all js_space l) ns
                    @ replicate (length ns - length (filter (\<lambda>l. \<not> list_all js_space l) ns)) []
                    @ drop (nat (e + 1)) (split_nl content)"
  shows "sortTimestampsInSection tz content sec =
     Inr (Modify (join_nl new)
            (''Sorted '' @ toString (Num (int (length (sortTimestampedEntries es))))
               @ '' timestamped entries in '' @ [CHR 0x22] @ heading sec @ [CHR 0x22]))"
    and "split_nl (join_nl new) = new"
proof -
  let ?lines = "split_nl content"
  have r: "0 \<le> s" "s \<le> e + 1" "e < int (length ?lines)"
    using sectionBounds_range[OF b] by auto
  have "length es + length ns = length [s..e]" using sc by (rule scanSection_lengths)
  then have len: "length (sortTimestampedEntries es) + length ns = nat (e - s + 1)"
    by (simp add: length_sortTimestampedEntries)
  have rb: "rebuild ?lines s e (sortTimestampedEntries es) ns = new"
    unfolding new rebuild_eq[OF r len] nonblank_filter ..
  show "sortTimestampsInSection tz content sec =
     Inr (Modify (join_nl new)
            (''Sorted '' @ toString (Num (int (length (sortTimestampedEntries es))))
               @ '' timestamped entries in '' @ [CHR 0x22] @ heading sec @ [CHR 0x22]))"
    using b sc ne rb by (simp add: sortTimestampsInSection_def Let_def)
  have sub: "set (map line es) \<union> set ns \<subseteq> set ?lines"
    by (rule scanned_lines_subset[OF r(1) r(3) sc])
  have "set (sortTimestampedEntries es) = set es"
    using mset_array_sort[of compareEntries es]
    by (metis sortTimestampedEntries_def set_mset_mset)
  then have "set (map line (sortTimestampedEntries es)) = set (map line es)" by simp
  then have "set new \<subseteq> set ?lines \<union> {[]}"
    unfolding new using sub
    by (auto dest: in_set_takeD in_set_dropD)
  then have nl: "\<forall>l \<in> set new. CHR 0x0A \<notin> set l"
    using split_nl_no_newline[of _ content] by auto
  have "new \<noteq> []" unfolding new using ne length_sortTimestampedEntries[of es] by auto
  then show "split_nl (join_nl new) = new" using nl by (rule split_join_nl)
qed

lemma sortTimestampsInSection_cases:
  assumes b: "sectionBounds (split_nl content) sec = Inr (s, e)"
  shows "filter (\<lambda>i. isTimestampRow tz (split_nl content ! nat i)) [s..e] = [] \<Longrightarrow>
           sortTimestampsInSection tz content sec
             = Inr (Notice ''No timestamped entries found in the selected section'')"
    and "filter (\<lambda>i. isTimestampRow tz (split_nl content ! nat i)) [s..e] \<noteq> [] \<Longrightarrow>
           \<exists>newContent msg. sortTimestampsInSection tz content sec = Inr (Modify newContent msg)"
  by (simp_all add: sortTimestampsInSection_def b scanSection_Nil Let_def)

lemma sort_Modify_shape:
  assumes b: "sectionBounds (split_nl content) sec = Inr (s, e)"
    and m: "sortTimestampsInSection tz content sec = Inr (Modify newContent msg)"
  shows "\<exists>es ns. scanSection tz (split_nl content) [s..e] ([], []) = (es, ns) \<and> es \<noteq> []
      \<and> split_nl newContent
          = take (nat s) (split_nl content) @ map line (sortTimestampedEntries es)
              @ filter (\<lambda>l. \<not> list_all js_space l) ns
              @ replicate (length ns - length (filter (\<lambda>l. \<not> list_all js_space l) ns)) []
              @ drop (nat (e + 1)) (split_nl content)"
proof -
  obtain es ns where sc: "scanSection tz (split_nl content) [s..e] ([], []) = (es, ns)"
    by fastforce
  have ne: "es \<noteq> []"
  proof
    assume "es = []"
    then have "sortTimestampsInSection tz content sec
        = Inr (Notice ''No timestamped entries found in the selected section'')"
      using b sc by (simp add: sortTimestampsInSection_def)
    with m show False by simp
  qed
  note sh = sort_result_shape[OF b sc ne refl]
  from sh(1) m have "newContent = join_nl (take (nat s) (split_nl content)
              @ map line (sortTimestampedEntries es)
              @ filter (\<lambda>l. \<not> list_all js_space l) ns
              @ replicate (length ns - length (filter (\<lambda>l. \<not> list_all js_space l) ns)) []
              @ drop (nat (e + 1)) (split_nl content))"
    by simp
  with sh(2) sc ne show ?thesis by auto
qed

text \<open>
  Claim C4. When the range of the chosen section holds at least one timestamp row, the
  command writes a text whose lines are those of the document with the range replaced by:
  the lines of the sorted entries, in the comparator's order, from \<open>startLine\<close> on; then
  the other lines of the range in the order met, without those that are empty or all
  whitespace; then empty lines up to \<open>endLine\<close>. The section body of the specification's
  example becomes the stated body, whatever the host's time zone.
\<close>

theorem sort_rewrites_range:
  "(lines = split_nl content \<and> sectionBounds lines sec = Inr (s, e)
      \<and> es = map (entryAt tz lines) (filter (\<lambda>i. isTimestampRow tz (lines ! nat i)) [s..e])
      \<and> ns = map (\<lambda>i. lines ! nat i) (filter (\<lambda>i. \<not> isTimestampRow tz (lines ! nat i)) [s..e])
      \<and> es \<noteq> [] \<longrightarrow>
      (\<exists>newContent msg. sortTimestampsInSection tz content sec = Inr (Modify newContent msg)
         \<and> split_nl newContent =
             take (nat s) lines @ map line (sortTimestampedEntries es)
               @ filter (\<lambda>l. \<not> list_all js_space l) ns
               @ replicate (length ns - length (filter (\<lambda>l. \<not> list_all js_space l) ns)) []
               @ drop (nat (e + 1)) lines))
   \<and> (\<exists>newContent msg.
         sortTimestampsInSection tz (join_nl [''- 20240101 - A'', ''note'', ''- 20240601 - B''])
           entireDocument = Inr (Modify newContent msg)
         \<and> split_nl newContent = [''- 20240601 - B'', ''- 20240101 - A'', ''note''])"
proof
  show "lines = split_nl content \<and> sectionBounds lines sec = Inr (s, e)
      \<and> es = map (entryAt tz lines) (filter (\<lambda>i. isTimestampRow tz (lines ! nat i)) [s..e])
      \<and> ns = map (\<lambda>i. lines ! nat i) (filter (\<lambda>i. \<not> isTimestampRow tz (lines ! nat i)) [s..e])
      \<and> es \<noteq> [] \<longrightarrow>
      (\<exists>newContent msg. sortTimestampsInSection tz content sec = Inr (Modify newContent msg)
         \<and> split_nl newContent =
             take (nat s) lines @ map line (sortTimestampedEntries es)
               @ filter (\<lambda>l. \<not> list_all js_space l) ns
               @ replicate (length ns - length (filter (\<lambda>l. \<not> list_all js_space l) ns)) []
               @ drop (nat (e + 1)) lines)"
  proof
    assume h: "lines = split_nl content \<and> sectionBounds lines sec = Inr (s, e)
      \<and> es = map (entryAt tz lines) (filter (\<lambda>i. isTimestampRow tz (lines ! nat i)) [s..e])
      \<and> ns = map (\<lambda>i. lines ! nat i) (filter (\<lambda>i. \<not> isTimestampRow tz (lines ! nat i)) [s..e])
      \<and> es \<noteq> []"
    then have L: "lines = split_nl content" and b0: "sectionBounds lines sec = Inr (s, e)"
      and E: "es = map (entryAt tz lines) (filter (\<lambda>i. isTimestampRow tz (lines ! nat i)) [s..e])"
      and N: "ns = map (\<lambda>i. lines ! nat i) (filter (\<lambda>i. \<not> isTimestampRow tz (lines ! nat i)) [s..e])"
      and ne: "es \<noteq> []"
      by blast+
    have sc0: "scanSection tz lines [s..e] ([], []) = (es, ns)"
      unfolding scanSection_Nil using E N by (simp only:)
    note b = b0[unfolded L] and sc = sc0[unfolded L]
    note sh = sort_result_shape[OF b sc ne refl]
    show "\<exists>newContent msg. sortTimestampsInSection tz content sec = Inr (Modify newContent msg)
         \<and> split_nl newContent =
             take (nat s) lines @ map line (sortTimestampedEntries es)
               @ filter (\<lambda>l. \<not> list_all js_space l) ns
               @ replicate (length ns - length (filter (\<lambda>l. \<not> list_all js_space l) ns)) []
               @ drop (nat (e + 1)) lines"
      unfolding L using sh by blast
  qed
next
  let ?L = "[''- 20240101 - A'', ''note'', ''- 20240601 - B'']"
  have sp: "split_nl (join_nl ?L) = ?L" by code_simp
  have tzs: "\<And>ln. parseTimestamp tz ln = map_option (\<lambda>t. t - tz) (parseTimestamp 0 ln)"
    by (simp add: parseTimestamp_def newDate_def Let_def split: option.splits)
  have p0: "parseTimestamp 0 ''- 20240101 - A'' = Some 1704067200000" by code_simp
  have p1: "parseTimestamp 0 ''note'' = None" by code_simp
  have p2: "parseTimestamp 0 ''- 20240601 - B'' = Some 1717200000000" by code_simp
  have l1: "\<not> loose_match ''note''" by code_simp
  have b: "sectionBounds ?L entireDocument = Inr (0, 2)" by code_simp
  have u: "[0..2::int] = [0, 1, 2]" by code_simp
  have nb: "filter (\<lambda>l. \<not> list_all js_space l) [''note''] = [''note'']" by code_simp
  have r0: "isTimestampRow tz ''- 20240101 - A''" and r1: "\<not> isTimestampRow tz ''note''"
    and r2: "isTimestampRow tz ''- 20240601 - B''"
    by (simp_all add: isTimestampRow_def tzs[of "''- 20240101 - A''"] tzs[of "''note''"]
        tzs[of "''- 20240601 - B''"] p0 p1 p2 l1)
  have sc: "scanSection tz ?L [0..2] ([], []) =
     ([\<lparr>line = ''- 20240101 - A'', timestamp = Some (1704067200000 - tz), originalIndex = 0\<rparr>,
       \<lparr>line = ''- 20240601 - B'', timestamp = Some (1717200000000 - tz), originalIndex = 2\<rparr>],
      [''note''])"
    unfolding scanSection_Nil u
    by (simp add: r0 r1 r2 entryAt_def tzs[of "''- 20240101 - A''"] tzs[of "''- 20240601 - B''"] p0 p2)
  have srt: "sortTimestampedEntries
     [\<lparr>line = ''- 20240101 - A'', timestamp = Some (1704067200000 - tz), originalIndex = 0\<rparr>,
       \<lparr>line = ''- 20240601 - B'', timestamp = Some (1717200000000 - tz), originalIndex = 2\<rparr>]
     = [\<lparr>line = ''- 20240601 - B'', timestamp = Some (1717200000000 - tz), originalIndex = 2\<rparr>,
        \<lparr>line = ''- 20240101 - A'', timestamp = Some (1704067200000 - tz), originalIndex = 0\<rparr>]"
    by (simp add: sortTimestampedEntries_def array_sort_def compareEntries_def)
  have new: "[''- 20240601 - B'', ''- 20240101 - A'', ''note'']
      = take (nat 0) (split_nl (join_nl ?L))
        @ map line (sortTimestampedEntries
            [\<lparr>line = ''- 20240101 - A'', timestamp = Some (1704067200000 - tz), originalIndex = 0\<rparr>,
             \<lparr>line = ''- 20240601 - B'', timestamp = Some (1717200000000 - tz), originalIndex = 2\<rparr>])
        @ filter (\<lambda>l. \<not> list_all js_space l) [''note'']
        @ replicate (length [''note''] - length (filter (\<lambda>l. \<not> list_all js_space l) [''note''])) []
        @ drop (nat (2 + 1)) (split_nl (join_nl ?L))"
    unfolding srt nb sp by simp
  note sh = sort_result_shape[of "join_nl ?L" entireDocument 0 2 tz, unfolded sp, OF b sc _ new[unfolded sp]]
  have "sortTimestampsInSection tz (join_nl ?L) entireDocument =
     Inr (Modify (join_nl [''- 20240601 - B'', ''- 20240101 - A'', ''note''])
            (''Sorted '' @ toString (Num (int (length (sortTimestampedEntries
                 [\<lparr>line = ''- 20240101 - A'', timestamp = Some (1704067200000 - tz), originalIndex = 0\<rparr>,
                  \<lparr>line = ''- 20240601 - B'', timestamp = Some (1717200000000 - tz), originalIndex = 2\<rparr>]))))
               @ '' timestamped entries in '' @ [CHR 0x22] @ heading entireDocument @ [CHR 0x22]))"
    by (rule sh(1)) simp
  moreover have "split_nl (join_nl [''- 20240601 - B'', ''- 20240101 - A'', ''note''])
      = [''- 20240601 - B'', ''- 20240101 - A'', ''note'']"
    by code_simp
  ultimately show "\<exists>newContent msg.
         sortTimestampsInSection tz (join_nl ?L) entireDocument = Inr (Modify newContent msg)
         \<and> split_nl newContent = [''- 20240601 - B'', ''- 20240101 - A'', ''note'']"
    by blast
qed


lemma example_lines:
  "split_nl (join_nl [''# H'', ''- 20240101 - A'', '' '', ''note'', ''- 202406011 - C'',
                      ''- 20240601 - B'', ''# K'', ''tail''])
   = [''# H'', ''- 20240101 - A'', '' '', ''note'', ''- 202406011 - C'', ''- 20240601 - B'',
      ''# K'', ''tail'']"
  by code_simp

lemma example_bounds:
  "sectionBounds [''# H'', ''- 20240101 - A'', '' '', ''note'', ''- 202406011 - C'',
                  ''- 20240601 - B'', ''# K'', ''tail'']
     \<lparr>heading = ''H'', sline = 0\<rparr> = Inr (1, 5)"
  by code_simp

lemma example_sort:
  "sortTimestampsInSection 0
     (join_nl [''# H'', ''- 20240101 - A'', '' '', ''note'', ''- 202406011 - C'',
               ''- 20240601 - B'', ''# K'', ''tail''])
     \<lparr>heading = ''H'', sline = 0\<rparr>
   = Inr (Modify (join_nl [''# H'', ''- 202406011 - C'', ''- 20240601 - B'', ''- 20240101 - A'',
                           ''note'', [], ''# K'', ''tail''])
            (''Sorted 3 timestamped entries in '' @ [CHR 0x22] @ ''H'' @ [CHR 0x22]))"
  by code_simp

lemma example_new_lines:
  "split_nl (join_nl [''# H'', ''- 202406011 - C'', ''- 20240601 - B'', ''- 20240101 - A'',
                      ''note'', [], ''# K'', ''tail''])
   = [''# H'', ''- 202406011 - C'', ''- 20240601 - B'', ''- 20240101 - A'', ''note'', [],
      ''# K'', ''tail'']"
  by code_simp

theorem sort_rewrites_range_witness:
  "sectionBounds [''# H'', ''- 20240101 - A'', '' '', ''note'', ''- 202406011 - C'',
                  ''- 20240601 - B'', ''# K'', ''tail'']
     \<lparr>heading = ''H'', sline = 0\<rparr> = Inr (1, 5)
   \<and> (\<exists>newContent msg. sortTimestampsInSection 0
        (join_nl [''# H'', ''- 20240101 - A'', '' '', ''note'', ''- 202406011 - C'',
                  ''- 20240601 - B'', ''# K'', ''tail''])
        \<lparr>heading = ''H'', sline = 0\<rparr> = Inr (Modify newContent msg)
      \<and> split_nl newContent
          = [''# H'', ''- 202406011 - C'', ''- 20240601 - B'', ''- 20240101 - A'',
             ''note'', [], ''# K'', ''tail''])"
proof -
  let ?L = "[''# H'', ''- 20240101 - A'', '' '', ''note'', ''- 202406011 - C'',
             ''- 20240601 - B'', ''# K'', ''tail'']"
  let ?es = "map (entryAt 0 ?L) (filter (\<lambda>i. isTimestampRow 0 (?L ! nat i)) [1..5])"
  let ?ns = "map (\<lambda>i. ?L ! nat i) (filter (\<lambda>i. \<not> isTimestampRow 0 (?L ! nat i)) [1..5])"
  have ne: "?es \<noteq> []" by code_simp
  have v: "take (nat 1) ?L @ map line (sortTimestampedEntries ?es)
             @ filter (\<lambda>l. \<not> list_all js_space l) ?ns
             @ replicate (length ?ns - length (filter (\<lambda>l. \<not> list_all js_space l) ?ns)) []
             @ drop (nat (5 + 1)) ?L
           = [''# H'', ''- 202406011 - C'', ''- 20240601 - B'', ''- 20240101 - A'',
                     ''note'', [], ''# K'', ''tail'']"
    by code_simp
  have "\<exists>newContent msg. sortTimestampsInSection 0 (join_nl ?L) \<lparr>heading = ''H'', sline = 0\<rparr>
          = Inr (Modify newContent msg)
         \<and> split_nl newContent = take (nat 1) ?L @ map line (sortTimestampedEntries ?es)
             @ filter (\<lambda>l. \<not> list_all js_space l) ?ns
             @ replicate (length ?ns - length (filter (\<lambda>l. \<not> list_all js_space l) ?ns)) []
             @ drop (nat (5 + 1)) ?L"
    by (rule sort_rewrites_range[of ?L "join_nl ?L" "\<lparr>heading = ''H'', sline = 0\<rparr>" 1 5 ?es 0 ?ns,
          THEN conjunct1, rule_format])
       (intro conjI example_lines[symmetric] example_bounds refl ne)
  then show ?thesis unfolding v using example_bounds by blast
qed

text \<open>
  Claim C6. A rewrite leaves the number of lines unchanged: the lines of the text written
  are those of the document with the \<open>endLine - startLine + 1\<close> lines of the range
  replaced by as many lines, and every line outside the range is the line it was.
\<close>

theorem sort_preserves_frame:
  "lines = split_nl content \<and> sectionBounds lines sec = Inr (s, e)
     \<and> sortTimestampsInSection tz content sec = Inr (Modify newContent msg)
     \<and> newLines = split_nl newContent \<longrightarrow>
   length newLines = length lines
   \<and> (\<exists>body. length body = nat (e - s + 1)
         \<and> newLines = take (nat s) lines @ body @ drop (nat (e + 1)) lines)
   \<and> (\<forall>i. i < length lines \<and> (int i < s \<or> e < int i) \<longrightarrow> newLines ! i = lines ! i)"
proof
  assume h: "lines = split_nl content \<and> sectionBounds lines sec = Inr (s, e)
     \<and> sortTimestampsInSection tz content sec = Inr (Modify newContent msg)
     \<and> newLines = split_nl newContent"
  then have L: "lines = split_nl content" and b: "sectionBounds lines sec = Inr (s, e)"
    and m: "sortTimestampsInSection tz content sec = Inr (Modify newContent msg)"
    and N: "newLines = split_nl newContent"
    by blast+
  have r: "0 \<le> s" "s \<le> e + 1" "e < int (length lines)"
    using sectionBounds_range[OF b] by auto
  from sort_Modify_shape[OF b[unfolded L] m] obtain es ns where
    sc: "scanSection tz lines [s..e] ([], []) = (es, ns)"
    and nl: "newLines = take (nat s) lines @ map line (sortTimestampedEntries es)
                    @ filter (\<lambda>l. \<not> list_all js_space l) ns
                    @ replicate (length ns - length (filter (\<lambda>l. \<not> list_all js_space l) ns)) []
                    @ drop (nat (e + 1)) lines"
    unfolding L N by blast
  let ?body = "map line (sortTimestampedEntries es)
                    @ filter (\<lambda>l. \<not> list_all js_space l) ns
                    @ replicate (length ns - length (filter (\<lambda>l. \<not> list_all js_space l) ns)) []"
  have "length es + length ns = length [s..e]" using sc by (rule scanSection_lengths)
  then have lb: "length ?body = nat (e - s + 1)"
    using length_filter_le[of "\<lambda>l. \<not> list_all js_space l" ns]
    by (simp add: length_sortTimestampedEntries)
  have nl': "newLines = take (nat s) lines @ ?body @ drop (nat (e + 1)) lines"
    using nl by simp
  have l1: "length (take (nat s) lines) = nat s" using r by simp
  have "length newLines = length (take (nat s) lines) + (length ?body
          + length (drop (nat (e + 1)) lines))"
    by (simp only: nl' length_append)
  then have len: "length newLines = length lines"
    unfolding l1 lb length_drop using r by linarith
  have frame: "\<forall>i. i < length lines \<and> (int i < s \<or> e < int i) \<longrightarrow> newLines ! i = lines ! i"
  proof (intro allI impI)
    fix i assume i: "i < length lines \<and> (int i < s \<or> e < int i)"
    show "newLines ! i = lines ! i"
    proof (cases "int i < s")
      case True
      then have "i < length (take (nat s) lines)" using r i by simp
      then have "newLines ! i = take (nat s) lines ! i" unfolding nl' by (simp add: nth_append)
      then show ?thesis using True by simp
    next
      case False
      with i have gt: "e < int i" by simp
      let ?p = "take (nat s) lines @ ?body"
      have "length ?p = length (take (nat s) lines) + length ?body" by (simp only: length_append)
      then have lp: "length ?p = nat (e + 1)" unfolding l1 lb using r by linarith
      have np: "newLines = ?p @ drop (nat (e + 1)) lines" using nl' by simp
      have ge: "\<not> i < length ?p" using gt lp by linarith
      have "(?p @ drop (nat (e + 1)) lines) ! i = drop (nat (e + 1)) lines ! (i - length ?p)"
        by (simp only: nth_append ge if_False)
      then have "newLines ! i = drop (nat (e + 1)) lines ! (i - nat (e + 1))"
        unfolding lp np[symmetric] .
      also have "\<dots> = lines ! (nat (e + 1) + (i - nat (e + 1)))"
        using r by (intro nth_drop) simp
      also have "nat (e + 1) + (i - nat (e + 1)) = i" using gt by simp
      finally show ?thesis .
    qed
  qed
  from len lb nl' frame show "length newLines = length lines
   \<and> (\<exists>body. length body = nat (e - s + 1)
         \<and> newLines = take (nat s) lines @ body @ drop (nat (e + 1)) lines)
   \<and> (\<forall>i. i < length lines \<and> (int i < s \<or> e < int i) \<longrightarrow> newLines ! i = lines ! i)"
    by blast
qed

theorem sort_preserves_frame_witness:
  "sectionBounds [''# H'', ''- 20240101 - A'', '' '', ''note'', ''- 202406011 - C'',
                  ''- 20240601 - B'', ''# K'', ''tail'']
     \<lparr>heading = ''H'', sline = 0\<rparr> = Inr (1, 5)
   \<and> sortTimestampsInSection 0
        (join_nl [''# H'', ''- 20240101 - A'', '' '', ''note'', ''- 202406011 - C'',
                  ''- 20240601 - B'', ''# K'', ''tail''])
        \<lparr>heading = ''H'', sline = 0\<rparr>
      = Inr (Modify (join_nl [''# H'', ''- 202406011 - C'', ''- 20240601 - B'',
                              ''- 20240101 - A'', ''note'', [], ''# K'', ''tail''])
               (''Sorted 3 timestamped entries in '' @ [CHR 0x22] @ ''H'' @ [CHR 0x22]))
   \<and> length [''# H'', ''- 202406011 - C'', ''- 20240601 - B'', ''- 20240101 - A'',
                     ''note'', [], ''# K'', ''tail'']
       = length [''# H'', ''- 20240101 - A'', '' '', ''note'', ''- 202406011 - C'',
                 ''- 20240601 - B'', ''# K'', ''tail'']
   \<and> [''# H'', ''- 202406011 - C'', ''- 20240601 - B'', ''- 20240101 - A'',
                     ''note'', [], ''# K'', ''tail''] ! 6
       = [''# H'', ''- 20240101 - A'', '' '', ''note'', ''- 202406011 - C'',
                 ''- 20240601 - B'', ''# K'', ''tail''] ! 6"
proof -
  let ?L = "[''# H'', ''- 20240101 - A'', '' '', ''note'', ''- 202406011 - C'',
             ''- 20240601 - B'', ''# K'', ''tail'']"
  let ?N = "[''# H'', ''- 202406011 - C'', ''- 20240601 - B'', ''- 20240101 - A'',
                     ''note'', [], ''# K'', ''tail'']"
  have "length ?N = length ?L
   \<and> (\<exists>body. length body = nat (5 - 1 + 1)
         \<and> ?N = take (nat 1) ?L @ body @ drop (nat (5 + 1)) ?L)
   \<and> (\<forall>i. i < length ?L \<and> (int i < 1 \<or> 5 < int i) \<longrightarrow> ?N ! i = ?L ! i)"
    by (rule sort_preserves_frame[of ?L "join_nl ?L" "\<lparr>heading = ''H'', sline = 0\<rparr>" 1 5 0
          "join_nl ?N" "''Sorted 3 timestamped entries in '' @ [CHR 0x22] @ ''H'' @ [CHR 0x22]" ?N,
          rule_format])
       (intro conjI example_lines[symmetric] example_bounds example_sort example_new_lines[symmetric])
  then have "length ?N = length ?L" and f: "\<forall>i. i < length ?L \<and> (int i < 1 \<or> 5 < int i) \<longrightarrow> ?N ! i = ?L ! i"
    by blast+
  from f[rule_format, of 6] have "?N ! 6 = ?L ! 6" by simp
  with \<open>length ?N = length ?L\<close> example_bounds example_sort show ?thesis by blast
qed

text \<open>
  Claim C7. When no line of the range is a timestamp row (neither pattern matches), the
  command writes nothing: its only effect is the notice that no timestamped entries were
  found.
\<close>

theorem sort_nothing_to_sort:
  "lines = split_nl content \<and> sectionBounds lines sec = Inr (s, e)
     \<and> (\<forall>i. s \<le> i \<and> i \<le> e \<longrightarrow>
            parseTimestamp tz (lines ! nat i) = None \<and> \<not> loose_match (lines ! nat i)) \<longrightarrow>
   sortTimestampsInSection tz content sec
     = Inr (Notice ''No timestamped entries found in the selected section'')"
proof
  assume h: "lines = split_nl content \<and> sectionBounds lines sec = Inr (s, e)
     \<and> (\<forall>i. s \<le> i \<and> i \<le> e \<longrightarrow>
            parseTimestamp tz (lines ! nat i) = None \<and> \<not> loose_match (lines ! nat i))"
  note L = h[THEN conjunct1] and b = h[THEN conjunct2, THEN conjunct1]
    and none = h[THEN conjunct2, THEN conjunct2, rule_format]
  have "\<not> isTimestampRow tz (lines ! nat i)" if "i \<in> set [s..e]" for i
    using none[of i] that by (simp add: isTimestampRow_def)
  then have "filter (\<lambda>i. isTimestampRow tz (lines ! nat i)) [s..e] = []"
    unfolding filter_empty_conv by blast
  then have "filter (\<lambda>i. isTimestampRow tz (split_nl content ! nat i)) [s..e] = []"
    unfolding L .
  then show "sortTimestampsInSection tz content sec
     = Inr (Notice ''No timestamped entries found in the selected section'')"
    by (rule sortTimestampsInSection_cases(1)[OF b[unfolded L]])
qed

lemma example_none_lines:
  "split_nl (join_nl [''# H'', ''foo'', ''- 2024 - short'', ''# K'', ''- 20240101 - A''])
     = [''# H'', ''foo'', ''- 2024 - short'', ''# K'', ''- 20240101 - A'']"
  by code_simp

lemma example_none_bounds:
  "sectionBounds [''# H'', ''foo'', ''- 2024 - short'', ''# K'', ''- 20240101 - A'']
     \<lparr>heading = ''H'', sline = 0\<rparr> = Inr (1, 2)"
  by code_simp

lemma example_none_rows:
  "list_all (\<lambda>i. parseTimestamp 0 ([''# H'', ''foo'', ''- 2024 - short'', ''# K'', ''- 20240101 - A''] ! nat i) = None
        \<and> \<not> loose_match ([''# H'', ''foo'', ''- 2024 - short'', ''# K'', ''- 20240101 - A''] ! nat i)) [1..2]"
  by code_simp

theorem sort_nothing_to_sort_witness:
  "sectionBounds [''# H'', ''foo'', ''- 2024 - short'', ''# K'', ''- 20240101 - A'']
     \<lparr>heading = ''H'', sline = 0\<rparr> = Inr (1, 2)
   \<and> parseTimestamp 0 ''foo'' = None \<and> \<not> loose_match ''- 2024 - short''
   \<and> sortTimestampsInSection 0
        (join_nl [''# H'', ''foo'', ''- 2024 - short'', ''# K'', ''- 20240101 - A''])
        \<lparr>heading = ''H'', sline = 0\<rparr>
      = Inr (Notice ''No timestamped entries found in the selected section'')"
proof -
  let ?L = "[''# H'', ''foo'', ''- 2024 - short'', ''# K'', ''- 20240101 - A'']"
  have all: "\<forall>i. 1 \<le> i \<and> i \<le> 2 \<longrightarrow>
            parseTimestamp 0 (?L ! nat i) = None \<and> \<not> loose_match (?L ! nat i)"
    using example_none_rows unfolding list_all_iff by simp
  have a: "parseTimestamp 0 ''foo'' = None" using all[rule_format, of 1] by simp
  have c: "\<not> loose_match ''- 2024 - short''" using all[rule_format, of 2] by simp
  have "sortTimestampsInSection 0 (join_nl ?L) \<lparr>heading = ''H'', sline = 0\<rparr>
      = Inr (Notice ''No timestamped entries found in the selected section'')"
    by (rule sort_nothing_to_sort[of ?L "join_nl ?L" "\<lparr>heading = ''H'', sline = 0\<rparr>" 1 2 0,
          rule_format])
       (intro conjI example_none_lines[symmetric] example_none_bounds all)
  with a c example_none_bounds show ?thesis by blast
qed

text \<open>
  Claim C10. After a rewrite the lines of the range that are not all whitespace are, as
  a multiset, those of the range before: none is lost, repeated or altered; and a line
  of the new range that is all whitespace is the empty line.
\<close>

theorem sort_keeps_nonblank_lines:
  "lines = split_nl content \<and> sectionBounds lines sec = Inr (s, e)
     \<and> sortTimestampsInSection tz content sec = Inr (Modify newContent msg)
     \<and> newLines = split_nl newContent \<longrightarrow>
   mset (filter (\<lambda>l. \<not> list_all js_space l) (take (nat (e - s + 1)) (drop (nat s) newLines)))
     = mset (filter (\<lambda>l. \<not> list_all js_space l) (take (nat (e - s + 1)) (drop (nat s) lines)))
   \<and> (\<forall>l \<in> set (take (nat (e - s + 1)) (drop (nat s) newLines)). list_all js_space l \<longrightarrow> l = [])"
proof
  assume h: "lines = split_nl content \<and> sectionBounds lines sec = Inr (s, e)
     \<and> sortTimestampsInSection tz content sec = Inr (Modify newContent msg)
     \<and> newLines = split_nl newContent"
  then have L: "lines = split_nl content" and b: "sectionBounds lines sec = Inr (s, e)"
    and m: "sortTimestampsInSection tz content sec = Inr (Modify newContent msg)"
    and N: "newLines = split_nl newContent"
    by blast+
  have r: "0 \<le> s" "s \<le> e + 1" "e < int (length lines)"
    using sectionBounds_range[OF b] by auto
  from sort_Modify_shape[OF b[unfolded L] m] obtain es ns where
    sc: "scanSection tz lines [s..e] ([], []) = (es, ns)"
    and nl: "newLines = take (nat s) lines @ map line (sortTimestampedEntries es)
                    @ filter (\<lambda>l. \<not> list_all js_space l) ns
                    @ replicate (length ns - length (filter (\<lambda>l. \<not> list_all js_space l) ns)) []
                    @ drop (nat (e + 1)) lines"
    unfolding L N by blast
  let ?nb = "\<lambda>l. \<not> list_all js_space l"
  let ?body = "map line (sortTimestampedEntries es) @ filter ?nb ns
                    @ replicate (length ns - length (filter ?nb ns)) []"
  have "length es + length ns = length [s..e]" using sc by (rule scanSection_lengths)
  then have lb: "length ?body = nat (e - s + 1)"
    using length_filter_le[of ?nb ns] by (simp add: length_sortTimestampedEntries)
  have l1: "length (take (nat s) lines) = nat s" using r by simp
  have "newLines = take (nat s) lines @ (?body @ drop (nat (e + 1)) lines)" using nl by simp
  then have "drop (nat s) newLines = ?body @ drop (nat (e + 1)) lines"
    using l1 by (metis append_eq_conv_conj)
  then have range_new: "take (nat (e - s + 1)) (drop (nat s) newLines) = ?body"
    using lb by (metis append_eq_conv_conj)
  have range_old: "take (nat (e - s + 1)) (drop (nat s) lines) = map (\<lambda>i. lines ! nat i) [s..e]"
    using map_nth_upto[OF r(1) r(3)] by simp
  have entries_nb: "filter ?nb (map line es) = map line es"
    using scanSection_entries_not_blank[OF sc] by (simp add: filter_id_conv)
  have "mset (filter ?nb ?body) = mset (filter ?nb (map line (sortTimestampedEntries es)))
          + mset (filter ?nb ns)"
    by simp
  also have "mset (filter ?nb (map line (sortTimestampedEntries es)))
               = filter_mset ?nb (image_mset line (mset (sortTimestampedEntries es)))"
    by simp
  also have "mset (sortTimestampedEntries es) = mset es"
    by (simp add: sortTimestampedEntries_def mset_array_sort)
  also have "filter_mset ?nb (image_mset line (mset es)) + mset (filter ?nb ns)
               = filter_mset ?nb (mset (map line es) + mset ns)"
    by simp
  also have "mset (map line es) + mset ns = mset (map (\<lambda>i. lines ! nat i) [s..e])"
    using sc by (rule scanSection_mset)
  finally have m: "mset (filter ?nb ?body) = mset (filter ?nb (map (\<lambda>i. lines ! nat i) [s..e]))"
    by simp
  have blanks: "\<forall>l \<in> set ?body. list_all js_space l \<longrightarrow> l = []"
    using scanSection_entries_not_blank[OF sc]
    by (auto simp: sortTimestampedEntries_def set_mset_mset[symmetric] mset_array_sort
             simp del: set_mset_mset)
  from m blanks show "mset (filter ?nb (take (nat (e - s + 1)) (drop (nat s) newLines)))
     = mset (filter ?nb (take (nat (e - s + 1)) (drop (nat s) lines)))
   \<and> (\<forall>l \<in> set (take (nat (e - s + 1)) (drop (nat s) newLines)). list_all js_space l \<longrightarrow> l = [])"
    unfolding range_new range_old by blast
qed

theorem sort_keeps_nonblank_lines_witness:
  "sectionBounds [''# H'', ''- 20240101 - A'', '' '', ''note'', ''- 202406011 - C'',
                  ''- 20240601 - B'', ''# K'', ''tail'']
     \<lparr>heading = ''H'', sline = 0\<rparr> = Inr (1, 5)
   \<and> sortTimestampsInSection 0
        (join_nl [''# H'', ''- 20240101 - A'', '' '', ''note'', ''- 202406011 - C'',
                  ''- 20240601 - B'', ''# K'', ''tail''])
        \<lparr>heading = ''H'', sline = 0\<rparr>
      = Inr (Modify (join_nl [''# H'', ''- 202406011 - C'', ''- 20240601 - B'',
                              ''- 20240101 - A'', ''note'', [], ''# K'', ''tail''])
               (''Sorted 3 timestamped entries in '' @ [CHR 0x22] @ ''H'' @ [CHR 0x22]))
   \<and> mset [''- 202406011 - C'', ''- 20240601 - B'', ''- 20240101 - A'', ''note'']
       = mset [''- 20240101 - A'', ''note'', ''- 202406011 - C'', ''- 20240601 - B'']"
proof -
  let ?L = "[''# H'', ''- 20240101 - A'', '' '', ''note'', ''- 202406011 - C'',
             ''- 20240601 - B'', ''# K'', ''tail'']"
  let ?N = "[''# H'', ''- 202406011 - C'', ''- 20240601 - B'', ''- 20240101 - A'',
                     ''note'', [], ''# K'', ''tail'']"
  have a: "filter (\<lambda>l. \<not> list_all js_space l) (take (nat (5 - 1 + 1)) (drop (nat 1) ?N))
         = [''- 202406011 - C'', ''- 20240601 - B'', ''- 20240101 - A'', ''note'']"
    by code_simp
  have c: "filter (\<lambda>l. \<not> list_all js_space l) (take (nat (5 - 1 + 1)) (drop (nat 1) ?L))
         = [''- 20240101 - A'', ''note'', ''- 202406011 - C'', ''- 20240601 - B'']"
    by code_simp
  have "mset (filter (\<lambda>l. \<not> list_all js_space l) (take (nat (5 - 1 + 1)) (drop (nat 1) ?N)))
     = mset (filter (\<lambda>l. \<not> list_all js_space l) (take (nat (5 - 1 + 1)) (drop (nat 1) ?L)))
   \<and> (\<forall>l \<in> set (take (nat (5 - 1 + 1)) (drop (nat 1) ?N)). list_all js_space l \<longrightarrow> l = [])"
    by (rule sort_keeps_nonblank_lines[of ?L "join_nl ?L" "\<lparr>heading = ''H'', sline = 0\<rparr>" 1 5 0
          "join_nl ?N" "''Sorted 3 timestamped entries in '' @ [CHR 0x22] @ ''H'' @ [CHR 0x22]" ?N,
          rule_format])
       (intro conjI example_lines[symmetric] example_bounds example_sort example_new_lines[symmetric])
  then have "mset (filter (\<lambda>l. \<not> list_all js_space l) (take (nat (5 - 1 + 1)) (drop (nat 1) ?N)))
     = mset (filter (\<lambda>l. \<not> list_all js_space l) (take (nat (5 - 1 + 1)) (drop (nat 1) ?L)))"
    by blast
  then show ?thesis unfolding a c using example_bounds example_sort by blast
qed

section \<open>The section locator\<close>

lemma takeWhile_hash: "takeWhile (\<lambda>c. c = x) l = replicate (length (takeWhile (\<lambda>c. c = x) l)) x"
  by (induction l) auto

lemma find_SomeD: "find P xs = Some x \<Longrightarrow> x \<in> set xs \<and> P x"
  by (induction xs) (auto split: if_splits)

lemma split_at_props:
  "1 \<le> j \<Longrightarrow> j < length r \<Longrightarrow> list_all P (take j r) \<Longrightarrow>
     drop j r \<noteq> [] \<and> take j r \<noteq> [] \<and> P (hd r) \<and> r \<noteq> []"
  by (cases r; cases j) auto

lemma takeWhile_nonempty: "r \<noteq> [] \<Longrightarrow> P (hd r) \<Longrightarrow> takeWhile P r \<noteq> []"
  by (cases r) auto

lemma headingMatch_SomeD:
  assumes "headingMatch l = Some (k, t)"
  shows "1 \<le> k \<and> k \<le> 6 \<and> getHeadingLevel l = int k
     \<and> (\<exists>ws. all_space ws \<and> t \<noteq> [] \<and> l = replicate k (CHR ''#'') @ ws @ t)"
proof -
  let ?hs = "takeWhile (\<lambda>c. c = CHR ''#'') l"
  let ?r = "dropWhile (\<lambda>c. c = CHR ''#'') l"
  let ?P = "\<lambda>j. list_all js_space (take j ?r) \<and> list_all (\<lambda>c. \<not> line_term c) (drop j ?r)"
  have hm: "headingMatch l =
      (if 1 \<le> length ?hs \<and> length ?hs \<le> 6
       then (case find ?P (rev [1..<length ?r]) of
               None \<Rightarrow> None | Some j \<Rightarrow> Some (length ?hs, drop j ?r))
       else None)"
    unfolding headingMatch_def Let_def ..
  have k12: "1 \<le> length ?hs \<and> length ?hs \<le> 6"
  proof (rule ccontr)
    assume "\<not> (1 \<le> length ?hs \<and> length ?hs \<le> 6)"
    then have "headingMatch l = None" unfolding hm by (simp only: if_False)
    with assms show False by simp
  qed
  then have hm': "(case find ?P (rev [1..<length ?r]) of
               None \<Rightarrow> None | Some j \<Rightarrow> Some (length ?hs, drop j ?r)) = Some (k, t)"
    using assms unfolding hm by (simp only: if_True simp_thms)
  then obtain j where f: "find ?P (rev [1..<length ?r]) = Some j"
    and kt: "(length ?hs, drop j ?r) = (k, t)"
    by (cases "find ?P (rev [1..<length ?r])") simp_all
  from kt have t: "t = drop j ?r" and k3: "k = length ?hs" by simp_all
  note k = conjunct1[OF k12] conjunct2[OF k12] k3
  from find_SomeD[OF f] have "j \<in> set (rev [1..<length ?r])" and pj: "?P j"
    by blast+
  then have j: "1 \<le> j" "j < length ?r" by auto
  from pj have pj1: "list_all js_space (take j ?r)" ..
  note sp = split_at_props[OF j pj1]
  have tne: "t \<noteq> []" unfolding t using sp by blast
  have ws: "all_space (take j ?r)" unfolding all_space_def using sp pj1 by blast
  have l: "l = replicate k (CHR ''#'') @ take j ?r @ t"
  proof -
    have "l = ?hs @ ?r" by simp
    also have "?hs = replicate k (CHR ''#'')" unfolding k(3) by (rule takeWhile_hash)
    also have "?r = take j ?r @ t" unfolding t by (rule append_take_drop_id[symmetric])
    finally show ?thesis .
  qed
  have "takeWhile js_space ?r \<noteq> []"
    using sp by (intro takeWhile_nonempty) blast+
  then have "getHeadingLevel l = int k"
    unfolding getHeadingLevel_def spaces1_def Let_def using k
    by (simp only: if_True if_False simp_thms option.distinct)
  with k ws tne l show ?thesis by blast
qed

lemma headingsFrom_mem:
  assumes "sec \<in> set (headingsFrom i ls)"
  shows "i \<le> sline sec \<and> sline sec < i + int (length ls)
     \<and> (\<exists>k t. headingMatch (ls ! nat (sline sec - i)) = Some (k, t))"
  using assms
proof (induction ls arbitrary: i)
  case Nil
  then show ?case by simp
next
  case (Cons l ls)
  show ?case
  proof (cases "sec \<in> set (headingsFrom (i + 1) ls)")
    case True
    from Cons.IH[OF True] have a: "i + 1 \<le> sline sec" "sline sec < i + 1 + int (length ls)"
      and m: "\<exists>k t. headingMatch (ls ! nat (sline sec - (i + 1))) = Some (k, t)" by auto
    have "nat (sline sec - i) = Suc (nat (sline sec - (i + 1)))" using a by linarith
    then have "(l # ls) ! nat (sline sec - i) = ls ! nat (sline sec - (i + 1))" by simp
    with a m show ?thesis by auto
  next
    case False
    with Cons.prems obtain k t where "headingMatch l = Some (k, t)" and "sline sec = i"
      by (auto split: option.splits)
    then show ?thesis by auto
  qed
qed

lemma hash_not_space: "\<not> js_space (CHR ''#'')"
  by (simp add: js_space_def)

lemma hashes_split:
  assumes "c \<noteq> x"
  shows "takeWhile (\<lambda>a. a = x) (replicate k x @ c # rest) = replicate k x"
    and "dropWhile (\<lambda>a. a = x) (replicate k x @ c # rest) = c # rest"
  using assms by (induction k) auto

lemma getHeadingLevel_hashes:
  assumes "c \<noteq> CHR ''#''"
  shows "getHeadingLevel (replicate k (CHR ''#'') @ c # rest)
           = (if 1 \<le> k \<and> k \<le> 6 \<and> js_space c then int k else 0)"
  unfolding getHeadingLevel_def Let_def hashes_split[OF assms] spaces1_def
  by simp

lemma getHeadingLevel_posD:
  assumes "getHeadingLevel ln \<noteq> 0"
  shows "\<exists>c rest. js_space c \<and> 1 \<le> length (takeWhile (\<lambda>a. a = CHR ''#'') ln)
            \<and> length (takeWhile (\<lambda>a. a = CHR ''#'') ln) \<le> 6
            \<and> getHeadingLevel ln = int (length (takeWhile (\<lambda>a. a = CHR ''#'') ln))
            \<and> ln = replicate (length (takeWhile (\<lambda>a. a = CHR ''#'') ln)) (CHR ''#'') @ c # rest"
proof -
  let ?hs = "takeWhile (\<lambda>a. a = CHR ''#'') ln"
  let ?r = "dropWhile (\<lambda>a. a = CHR ''#'') ln"
  have c: "1 \<le> length ?hs \<and> length ?hs \<le> 6 \<and> spaces1 ?r \<noteq> None"
  proof (rule ccontr)
    assume "\<not> (1 \<le> length ?hs \<and> length ?hs \<le> 6 \<and> spaces1 ?r \<noteq> None)"
    then have "getHeadingLevel ln = 0"
      unfolding getHeadingLevel_def Let_def by (simp only: if_False)
    with assms show False by simp
  qed
  then have g: "getHeadingLevel ln = int (length ?hs)"
    unfolding getHeadingLevel_def Let_def by (simp only: if_True simp_thms)
  from c have "takeWhile js_space ?r \<noteq> []" by (simp add: spaces1_def split: if_splits)
  then obtain c' rest where r: "?r = c' # rest" and s: "js_space c'"
    by (cases ?r) (auto split: if_splits)
  have "ln = ?hs @ ?r" by simp
  also have "?hs = replicate (length ?hs) (CHR ''#'')" by (rule takeWhile_hash)
  finally have "ln = replicate (length ?hs) (CHR ''#'') @ c' # rest" unfolding r .
  with c g s show ?thesis by blast
qed

lemma getHeadingLevel_iff:
  assumes "1 \<le> k" "k \<le> 6"
  shows "getHeadingLevel ln = int k
     \<longleftrightarrow> (\<exists>c rest. js_space c \<and> ln = replicate k (CHR ''#'') @ c # rest)"
proof
  assume h: "getHeadingLevel ln = int k"
  then have "getHeadingLevel ln \<noteq> 0" using assms by simp
  from getHeadingLevel_posD[OF this] h show "\<exists>c rest. js_space c \<and> ln = replicate k (CHR ''#'') @ c # rest"
    by (metis of_nat_eq_iff)
next
  assume "\<exists>c rest. js_space c \<and> ln = replicate k (CHR ''#'') @ c # rest"
  then obtain c rest where s: "js_space c" and l: "ln = replicate k (CHR ''#'') @ c # rest" by blast
  from s have "c \<noteq> CHR ''#''" using hash_not_space by blast
  from getHeadingLevel_hashes[OF this, of k rest] s assms show "getHeadingLevel ln = int k"
    unfolding l by simp
qed

lemma getHeadingLevel_range:
  "getHeadingLevel ln = 0 \<or> (\<exists>k. 1 \<le> k \<and> k \<le> 6 \<and> getHeadingLevel ln = int k)"
  using getHeadingLevel_posD[of ln] by blast

lemma spec_heading_level_hashes:
  assumes "c \<noteq> CHR ''#''"
  shows "spec_heading_level (replicate k (CHR ''#'') @ c # rest)
           = (if 1 \<le> k \<and> k \<le> 6 \<and> js_space c \<and> rest \<noteq> [] then int k else 0)"
  unfolding spec_heading_level_def Let_def hashes_split[OF assms]
  by (cases rest) auto

lemma spec_heading_level_bare:
  "spec_heading_level (replicate k (CHR ''#'')) = 0"
proof -
  have "dropWhile (\<lambda>a. a = CHR ''#'') (replicate k (CHR ''#'')) = []" by simp
  then show ?thesis unfolding spec_heading_level_def Let_def by simp
qed

lemma spec_heading_level_iff:
  assumes "1 \<le> k" "k \<le> 6"
  shows "spec_heading_level ln = int k
     \<longleftrightarrow> (\<exists>ws title. all_space ws \<and> title \<noteq> [] \<and> ln = replicate k (CHR ''#'') @ ws @ title)"
proof
  assume h: "spec_heading_level ln = int k"
  let ?hs = "takeWhile (\<lambda>a. a = CHR ''#'') ln"
  let ?r = "dropWhile (\<lambda>a. a = CHR ''#'') ln"
  have c: "1 \<le> length ?hs \<and> length ?hs \<le> 6 \<and> 2 \<le> length ?r \<and> js_space (hd ?r)"
  proof (rule ccontr)
    assume "\<not> (1 \<le> length ?hs \<and> length ?hs \<le> 6 \<and> 2 \<le> length ?r \<and> js_space (hd ?r))"
    then have "spec_heading_level ln = 0"
      unfolding spec_heading_level_def Let_def by (simp only: if_False)
    with h assms show False by simp
  qed
  then have "spec_heading_level ln = int (length ?hs)"
    unfolding spec_heading_level_def Let_def by (simp only: if_True simp_thms)
  with h have k: "length ?hs = k" by simp
  from c obtain c' t where r: "?r = c' # t" and t: "t \<noteq> []" and s: "js_space c'"
    by (cases ?r; cases "tl ?r") auto
  have "ln = ?hs @ ?r" by simp
  also have "?hs = replicate (length ?hs) (CHR ''#'')" by (rule takeWhile_hash)
  finally have "ln = replicate k (CHR ''#'') @ [c'] @ t" unfolding r k by simp
  moreover have "all_space [c']" using s by (simp add: all_space_def)
  ultimately show "\<exists>ws title. all_space ws \<and> title \<noteq> [] \<and> ln = replicate k (CHR ''#'') @ ws @ title"
    using t by blast
next
  assume "\<exists>ws title. all_space ws \<and> title \<noteq> [] \<and> ln = replicate k (CHR ''#'') @ ws @ title"
  then obtain ws title where w: "all_space ws" and t: "title \<noteq> []"
    and l: "ln = replicate k (CHR ''#'') @ ws @ title" by blast
  from w obtain c ws' where ws: "ws = c # ws'" and s: "js_space c"
    by (cases ws) (auto simp: all_space_def)
  from s have "c \<noteq> CHR ''#''" using hash_not_space by blast
  from spec_heading_level_hashes[OF this, of k "ws' @ title"] s t assms
  show "spec_heading_level ln = int k" unfolding l ws by simp
qed

lemma getHeadingLevel_spec_differ:
  "getHeadingLevel ln \<noteq> spec_heading_level ln
     \<longleftrightarrow> (\<exists>k c. 1 \<le> k \<and> k \<le> 6 \<and> js_space c \<and> ln = replicate k (CHR ''#'') @ [c])"
proof
  assume d: "getHeadingLevel ln \<noteq> spec_heading_level ln"
  let ?hs = "takeWhile (\<lambda>a. a = CHR ''#'') ln"
  let ?r = "dropWhile (\<lambda>a. a = CHR ''#'') ln"
  show "\<exists>k c. 1 \<le> k \<and> k \<le> 6 \<and> js_space c \<and> ln = replicate k (CHR ''#'') @ [c]"
  proof (cases "getHeadingLevel ln = 0")
    case True
    have "spec_heading_level ln = 0"
    proof (rule ccontr)
      assume n: "spec_heading_level ln \<noteq> 0"
      have c: "1 \<le> length ?hs \<and> length ?hs \<le> 6 \<and> 2 \<le> length ?r \<and> js_space (hd ?r)"
      proof (rule ccontr)
        assume "\<not> (1 \<le> length ?hs \<and> length ?hs \<le> 6 \<and> 2 \<le> length ?r \<and> js_space (hd ?r))"
        then have "spec_heading_level ln = 0"
          unfolding spec_heading_level_def Let_def by (simp only: if_False)
        with n show False by simp
      qed
      then have "takeWhile js_space ?r \<noteq> []" by (cases ?r) auto
      then have "spaces1 ?r \<noteq> None" by (simp add: spaces1_def)
      with c have "1 \<le> length ?hs \<and> length ?hs \<le> 6 \<and> spaces1 ?r \<noteq> None" by blast
      then have "getHeadingLevel ln = int (length ?hs)"
        unfolding getHeadingLevel_def Let_def by (simp only: if_True simp_thms)
      with True c show False by simp
    qed
    with True d show ?thesis by simp
  next
    case False
    from getHeadingLevel_posD[OF False] obtain c rest where s: "js_space c"
      and k: "1 \<le> length ?hs" "length ?hs \<le> 6"
      and g: "getHeadingLevel ln = int (length ?hs)"
      and l: "ln = replicate (length ?hs) (CHR ''#'') @ c # rest" by blast
    from s have ne: "c \<noteq> CHR ''#''" using hash_not_space by blast
    have "spec_heading_level ln = (if rest \<noteq> [] then int (length ?hs) else 0)"
      using spec_heading_level_hashes[OF ne, of "length ?hs" rest] s k l by simp
    with d g have "rest = []" by (cases rest) auto
    with l s k show ?thesis by blast
  qed
next
  assume "\<exists>k c. 1 \<le> k \<and> k \<le> 6 \<and> js_space c \<and> ln = replicate k (CHR ''#'') @ [c]"
  then obtain k c where k: "1 \<le> k" "k \<le> 6" and s: "js_space c"
    and l: "ln = replicate k (CHR ''#'') @ [c]" by blast
  from s have ne: "c \<noteq> CHR ''#''" using hash_not_space by blast
  have "getHeadingLevel ln = int k"
    using getHeadingLevel_hashes[OF ne, of k "[]"] s k unfolding l by simp
  moreover have "spec_heading_level ln = 0"
    using spec_heading_level_hashes[OF ne, of k "[]"] unfolding l by simp
  ultimately show "getHeadingLevel ln \<noteq> spec_heading_level ln" using k by simp
qed

text \<open>
  Claim C5, as amended. For the entry of the entire document the range is the whole
  document. For a heading at line \<open>h\<close> the range starts at \<open>h + 1\<close> and ends just before the
  first line from \<open>h + 1\<close> on whose heading level is positive and at most the level of line
  \<open>h\<close>, or at the last line when there is none. Every heading the command offers is a line
  of the document made of 1 to 6 \<^verbatim>\<open>#\<close>, whitespace and a title that is not empty, and its
  level is the number of \<^verbatim>\<open>#\<close>. The heading level of a line, which decides where a section
  ends, asks for less than that: a line has level \<open>k\<close>, for \<open>k\<close> from 1 to 6, exactly when
  it is \<open>k\<close> times \<^verbatim>\<open>#\<close> followed by one whitespace character and anything, also nothing,
  after it; every other line has level 0. So \<^verbatim>\<open>#\<close> and one space, with no text, is a heading
  of level 1 for the end of a section, though it is never offered as a heading.
\<close>

theorem section_bounds_locate:
  "(sline sec = - 1 \<longrightarrow> sectionBounds lines sec = Inr (0, int (length lines) - 1))
   \<and> (0 \<le> sline sec \<and> sline sec < int (length lines) \<longrightarrow>
        (\<exists>e. sectionBounds lines sec = Inr (sline sec + 1, e)
           \<and> ((\<exists>i. sline sec + 1 \<le> i \<and> i < int (length lines)
                  \<and> 0 < getHeadingLevel (lines ! nat i)
                  \<and> getHeadingLevel (lines ! nat i) \<le> getHeadingLevel (lines ! nat (sline sec))
                  \<and> (\<forall>j. sline sec + 1 \<le> j \<and> j < i \<longrightarrow>
                         \<not> (0 < getHeadingLevel (lines ! nat j)
                            \<and> getHeadingLevel (lines ! nat j)
                                 \<le> getHeadingLevel (lines ! nat (sline sec))))
                  \<and> e = i - 1)
              \<or> ((\<forall>j. sline sec + 1 \<le> j \<and> j < int (length lines) \<longrightarrow>
                         \<not> (0 < getHeadingLevel (lines ! nat j)
                            \<and> getHeadingLevel (lines ! nat j)
                                 \<le> getHeadingLevel (lines ! nat (sline sec))))
                  \<and> e = int (length lines) - 1))))
   \<and> (lines = split_nl content \<and> sec \<in> set (loadSectionsForFile content)
        \<and> sline sec \<noteq> - 1 \<longrightarrow>
        0 \<le> sline sec \<and> sline sec < int (length lines)
        \<and> (\<exists>k ws title. 1 \<le> k \<and> k \<le> 6 \<and> all_space ws \<and> title \<noteq> []
              \<and> lines ! nat (sline sec) = replicate k (CHR ''#'') @ ws @ title
              \<and> getHeadingLevel (lines ! nat (sline sec)) = int k))
   \<and> (\<forall>k. 1 \<le> k \<and> k \<le> 6 \<longrightarrow>
          (getHeadingLevel ln = int k
             \<longleftrightarrow> (\<exists>c rest. js_space c \<and> ln = replicate k (CHR ''#'') @ c # rest)))
   \<and> (getHeadingLevel ln = 0 \<or> (\<exists>k. 1 \<le> k \<and> k \<le> 6 \<and> getHeadingLevel ln = int k))"
proof (intro conjI impI)
  assume "sline sec = - 1"
  then show "sectionBounds lines sec = Inr (0, int (length lines) - 1)"
    by (simp add: sectionBounds_def)
next
  let ?h = "sline sec"
  let ?n = "int (length lines)"
  let ?P = "\<lambda>i. 0 < getHeadingLevel (lines ! nat i)
               \<and> getHeadingLevel (lines ! nat i) \<le> getHeadingLevel (lines ! nat ?h)"
  assume h: "0 \<le> ?h \<and> ?h < ?n"
  then have sb: "sectionBounds lines sec =
      Inr (?h + 1, case find ?P [?h + 1..?n - 1] of None \<Rightarrow> ?n - 1 | Some i \<Rightarrow> i - 1)"
    by (simp add: sectionBounds_def Let_def findEnd_find)
  show "\<exists>e. sectionBounds lines sec = Inr (?h + 1, e)
           \<and> ((\<exists>i. ?h + 1 \<le> i \<and> i < ?n \<and> 0 < getHeadingLevel (lines ! nat i)
                  \<and> getHeadingLevel (lines ! nat i) \<le> getHeadingLevel (lines ! nat ?h)
                  \<and> (\<forall>j. ?h + 1 \<le> j \<and> j < i \<longrightarrow> \<not> ?P j)
                  \<and> e = i - 1)
              \<or> ((\<forall>j. ?h + 1 \<le> j \<and> j < ?n \<longrightarrow> \<not> ?P j) \<and> e = ?n - 1))"
  proof (cases "find ?P [?h + 1..?n - 1]")
    case None
    then have "\<forall>j. ?h + 1 \<le> j \<and> j < ?n \<longrightarrow> \<not> ?P j"
      unfolding find_upto_None by auto
    moreover have "sectionBounds lines sec = Inr (?h + 1, ?n - 1)" using sb None by simp
    ultimately show ?thesis by blast
  next
    case (Some i)
    then have "?h + 1 \<le> i \<and> i \<le> ?n - 1 \<and> ?P i \<and> (\<forall>j. ?h + 1 \<le> j \<and> j < i \<longrightarrow> \<not> ?P j)"
      unfolding find_upto_Some .
    then have "?h + 1 \<le> i \<and> i < ?n \<and> 0 < getHeadingLevel (lines ! nat i)
                  \<and> getHeadingLevel (lines ! nat i) \<le> getHeadingLevel (lines ! nat ?h)
                  \<and> (\<forall>j. ?h + 1 \<le> j \<and> j < i \<longrightarrow> \<not> ?P j)"
      by auto
    moreover have "sectionBounds lines sec = Inr (?h + 1, i - 1)" using sb Some by simp
    ultimately show ?thesis by blast
  qed
next
  assume a: "lines = split_nl content \<and> sec \<in> set (loadSectionsForFile content)
        \<and> sline sec \<noteq> - 1"
  then have "sec \<in> set (headingsFrom 0 lines)"
    by (auto simp: loadSectionsForFile_def entireDocument_def)
  from headingsFrom_mem[OF this]
  have r: "0 \<le> sline sec" "sline sec < int (length lines)"
    and "\<exists>k t. headingMatch (lines ! nat (sline sec)) = Some (k, t)" by auto
  then obtain k t where "headingMatch (lines ! nat (sline sec)) = Some (k, t)" by blast
  from headingMatch_SomeD[OF this]
  have "\<exists>k ws title. 1 \<le> k \<and> k \<le> 6 \<and> all_space ws \<and> title \<noteq> []
              \<and> lines ! nat (sline sec) = replicate k (CHR ''#'') @ ws @ title
              \<and> getHeadingLevel (lines ! nat (sline sec)) = int k"
    by blast
  with r show "0 \<le> sline sec" "sline sec < int (length lines)"
     "\<exists>k ws title. 1 \<le> k \<and> k \<le> 6 \<and> all_space ws \<and> title \<noteq> []
              \<and> lines ! nat (sline sec) = replicate k (CHR ''#'') @ ws @ title
              \<and> getHeadingLevel (lines ! nat (sline sec)) = int k"
    by blast+
next
  show "\<forall>k. 1 \<le> k \<and> k \<le> 6 \<longrightarrow>
          (getHeadingLevel ln = int k
             \<longleftrightarrow> (\<exists>c rest. js_space c \<and> ln = replicate k (CHR ''#'') @ c # rest))"
    using getHeadingLevel_iff by blast
next
  show "getHeadingLevel ln = 0 \<or> (\<exists>k. 1 \<le> k \<and> k \<le> 6 \<and> getHeadingLevel ln = int k)"
    by (rule getHeadingLevel_range)
qed

lemma example_locate_member:
  "\<lparr>heading = ''H'', sline = 0\<rparr>
     \<in> set (loadSectionsForFile
              (join_nl [''# H'', ''- 20240101 - A'', ''## sub'', ''x'', ''# K'', ''tail'']))"
  by code_simp

lemma example_locate_lines:
  "split_nl (join_nl [''# H'', ''- 20240101 - A'', ''## sub'', ''x'', ''# K'', ''tail''])
     = [''# H'', ''- 20240101 - A'', ''## sub'', ''x'', ''# K'', ''tail'']"
  by code_simp

lemma example_locate_bounds:
  "sectionBounds [''# H'', ''- 20240101 - A'', ''## sub'', ''x'', ''# K'', ''tail'']
     \<lparr>heading = ''H'', sline = 0\<rparr> = Inr (1, 3)"
  by code_simp

theorem section_bounds_locate_witness:
  "\<lparr>heading = ''H'', sline = 0\<rparr>
     \<in> set (loadSectionsForFile
              (join_nl [''# H'', ''- 20240101 - A'', ''## sub'', ''x'', ''# K'', ''tail'']))
   \<and> sectionBounds [''# H'', ''- 20240101 - A'', ''## sub'', ''x'', ''# K'', ''tail'']
       \<lparr>heading = ''H'', sline = 0\<rparr> = Inr (1, 3)
   \<and> sectionBounds [''# H'', ''- 20240101 - A'', ''## sub'', ''x'', ''# K'', ''tail'']
       entireDocument = Inr (0, 5)
   \<and> (\<exists>k ws title. 1 \<le> k \<and> k \<le> 6 \<and> all_space ws \<and> title \<noteq> []
         \<and> ''# H'' = replicate k (CHR ''#'') @ ws @ title \<and> getHeadingLevel ''# H'' = int k)
   \<and> getHeadingLevel ''# '' = 1"
proof -
  let ?L = "[''# H'', ''- 20240101 - A'', ''## sub'', ''x'', ''# K'', ''tail'']"
  note t = section_bounds_locate[where sec = "\<lparr>heading = ''H'', sline = 0\<rparr>" and lines = ?L
        and content = "join_nl ?L",
      THEN conjunct2, THEN conjunct2, THEN conjunct1, rule_format]
  note u = section_bounds_locate[where sec = entireDocument and lines = ?L,
      THEN conjunct1, rule_format]
  have "sectionBounds ?L entireDocument = Inr (0, int (length ?L) - 1)"
    by (rule u) (simp add: entireDocument_def)
  then have a: "sectionBounds ?L entireDocument = Inr (0, 5)" by simp
  have n: "sline \<lparr>heading = ''H'', sline = 0\<rparr> \<noteq> - 1" by simp
  have "\<exists>k ws title. 1 \<le> k \<and> k \<le> 6 \<and> all_space ws \<and> title \<noteq> []
              \<and> ?L ! nat (sline \<lparr>heading = ''H'', sline = 0\<rparr>) = replicate k (CHR ''#'') @ ws @ title
              \<and> getHeadingLevel (?L ! nat (sline \<lparr>heading = ''H'', sline = 0\<rparr>)) = int k"
    using t[OF conjI[OF example_locate_lines[symmetric] conjI[OF example_locate_member n]]]
    by blast
  then have c: "\<exists>k ws title. 1 \<le> k \<and> k \<le> 6 \<and> all_space ws \<and> title \<noteq> []
         \<and> ''# H'' = replicate k (CHR ''#'') @ ws @ title \<and> getHeadingLevel ''# H'' = int k"
    by simp
  note v = section_bounds_locate[where ln = "''# ''",
      THEN conjunct2, THEN conjunct2, THEN conjunct2, THEN conjunct1, rule_format, of 1]
  have k: "1 \<le> (1::nat) \<and> (1::nat) \<le> 6" by simp
  have "\<exists>c rest. js_space c \<and> ''# '' = replicate 1 (CHR ''#'') @ c # rest"
    by (intro exI[of _ "CHR '' ''"] exI[of _ "[]"]) (simp add: js_space_def)
  with v[OF k] have "getHeadingLevel ''# '' = int 1" by (rule iffD2)
  then have d: "getHeadingLevel ''# '' = 1" by simp
  from a c d example_locate_member example_locate_bounds show ?thesis by blast
qed

text \<open>
  Claim C5 as the specification words it, with the level of every line taken by the
  grammar of a heading (1 to 6 \<^verbatim>\<open>#\<close>, whitespace, text that is not empty), does not hold. In
  the document below the heading \<^verbatim>\<open>## A\<close> at line 0 is offered; line 2 is \<^verbatim>\<open>#\<close> and one space.
  By that grammar no line after line 0 is a heading, so the section would end at the last
  line, 3. The sorter ends it at line 1, because \<open>getHeadingLevel\<close> gives line 2 the level 1.
\<close>

theorem section_bounds_locate_counterexample:
  "\<lparr>heading = ''  A'', sline = 0\<rparr>
     \<in> set (loadSectionsForFile
              (join_nl [''## A'', ''- 20240101 - x'', ''# '', ''- 20240601 - y'']))
   \<and> split_nl (join_nl [''## A'', ''- 20240101 - x'', ''# '', ''- 20240601 - y''])
       = [''## A'', ''- 20240101 - x'', ''# '', ''- 20240601 - y'']
   \<and> spec_heading_level ''## A'' = 2
   \<and> spec_heading_level ''# '' = 0
   \<and> getHeadingLevel ''# '' = 1
   \<and> spec_section_end [''## A'', ''- 20240101 - x'', ''# '', ''- 20240601 - y''] 0 = 3
   \<and> sectionBounds [''## A'', ''- 20240101 - x'', ''# '', ''- 20240601 - y'']
       \<lparr>heading = ''  A'', sline = 0\<rparr> = Inr (1, 1)
   \<and> sectionBounds [''## A'', ''- 20240101 - x'', ''# '', ''- 20240601 - y'']
       \<lparr>heading = ''  A'', sline = 0\<rparr>
       \<noteq> Inr (1, spec_section_end [''## A'', ''- 20240101 - x'', ''# '', ''- 20240601 - y''] 0)"
  by code_simp

section \<open>Calendar arithmetic and the round trip of a timestamp\<close>

lemma DayFromYear_bounds:
  "146097 * (y - 1970) - 506 \<le> 400 * DayFromYear y
   \<and> 400 * DayFromYear y \<le> 146097 * (y - 1970) + 589"
proof -
  define a where "a = (y - 1969) div 4"
  define b where "b = (y - 1901) div 100"
  define c where "c = (y - 1601) div 400"
  have a: "4 * a \<le> y - 1969" "y - 1969 < 4 * a + 4" unfolding a_def by linarith+
  have b: "100 * b \<le> y - 1901" "y - 1901 < 100 * b + 100" unfolding b_def by linarith+
  have c: "400 * c \<le> y - 1601" "y - 1601 < 400 * c + 400" unfolding c_def by linarith+
  have "DayFromYear y = 365 * (y - 1970) + a - b + c"
    by (simp add: DayFromYear_def a_def b_def c_def)
  with a b c show ?thesis by (simp add: algebra_simps)
qed

lemma div_step:
  fixes x k :: int
  assumes "0 < k"
  shows "(x + 1) div k = x div k + (if (x + 1) mod k = 0 then 1 else 0)"
proof -
  define q where "q = x div k"
  define r where "r = x mod k"
  have x: "x = k * q + r" and r: "0 \<le> r" "r < k"
    using assms by (simp_all add: q_def r_def)
  show ?thesis
  proof (cases "r = k - 1")
    case True
    then have e: "x + 1 = k * (q + 1) + 0" using x by (simp add: algebra_simps)
    have "(x + 1) div k = q + 1" using e assms by (intro int_div_pos_eq[of _ _ _ 0]) auto
    moreover have "(x + 1) mod k = 0" using e assms by (intro int_mod_pos_eq[of _ _ "q + 1"]) auto
    ultimately show ?thesis by (simp add: q_def)
  next
    case False
    then have r': "0 \<le> r + 1" "r + 1 < k" using r by auto
    have e: "x + 1 = k * q + (r + 1)" using x by simp
    have "(x + 1) div k = q" using e r' by (intro int_div_pos_eq[of _ _ _ "r + 1"]) auto
    moreover have "(x + 1) mod k = r + 1" using e r' by (intro int_mod_pos_eq[of _ _ q]) auto
    ultimately show ?thesis using r by (simp add: q_def)
  qed
qed

lemma mod_shift4: "((y::int) - 1968) mod 4 = 0 \<longleftrightarrow> y mod 4 = 0"
  using mod_mult_self1[of y "- 492" 4] by simp
lemma mod_shift100: "((y::int) - 1900) mod 100 = 0 \<longleftrightarrow> y mod 100 = 0"
  using mod_mult_self1[of y "- 19" 100] by simp
lemma mod_shift400: "((y::int) - 1600) mod 400 = 0 \<longleftrightarrow> y mod 400 = 0"
  using mod_mult_self1[of y "- 4" 400] by simp
lemma mod_100_4: "(y::int) mod 100 = 0 \<Longrightarrow> y mod 4 = 0"
proof -
  assume "y mod 100 = 0"
  then have "100 dvd y" by (simp add: dvd_eq_mod_eq_0)
  moreover have "(4::int) dvd 100" by simp
  ultimately have "4 dvd y" by (rule dvd_trans[rotated])
  then show ?thesis by (simp add: dvd_eq_mod_eq_0)
qed
lemma mod_400_100: "(y::int) mod 400 = 0 \<Longrightarrow> y mod 100 = 0"
proof -
  assume "y mod 400 = 0"
  then have "400 dvd y" by (simp add: dvd_eq_mod_eq_0)
  moreover have "(100::int) dvd 400" by simp
  ultimately have "100 dvd y" by (rule dvd_trans[rotated])
  then show ?thesis by (simp add: dvd_eq_mod_eq_0)
qed

lemma DayFromYear_step:
  "DayFromYear (y + 1) = DayFromYear y + 365 + (if InLeapYear y then 1 else 0)"
proof -
  have a: "(y + 1 - 1969) div 4 = (y - 1969) div 4 + (if y mod 4 = 0 then 1 else 0)"
    using div_step[of 4 "y - 1969"] mod_shift4[of y] by (simp add: algebra_simps)
  have b: "(y + 1 - 1901) div 100 = (y - 1901) div 100 + (if y mod 100 = 0 then 1 else 0)"
    using div_step[of 100 "y - 1901"] mod_shift100[of y] by (simp add: algebra_simps)
  have c: "(y + 1 - 1601) div 400 = (y - 1601) div 400 + (if y mod 400 = 0 then 1 else 0)"
    using div_step[of 400 "y - 1601"] mod_shift400[of y] by (simp add: algebra_simps)
  show ?thesis
    unfolding DayFromYear_def InLeapYear_def a b c
    using mod_100_4[of y] mod_400_100[of y] by auto
qed


lemma DayFromYear_mono_step: "DayFromYear y < DayFromYear (y + 1)"
  unfolding DayFromYear_step by simp

text \<open>\<open>YearFromDay\<close> is the year whose days include the day number.\<close>

lemma YearFromDay_unique:
  assumes lo: "DayFromYear y \<le> n" and hi: "n < DayFromYear (y + 1)"
  shows "YearFromDay n = y"
proof -
  define e where "e = 1970 + (400 * n) div 146097"
  define q where "q = (400 * n) div 146097"
  have q: "146097 * q \<le> 400 * n" "400 * n < 146097 * q + 146097" unfolding q_def by linarith+
  have b1: "146097 * (y - 1970) - 506 \<le> 400 * DayFromYear y"
    using DayFromYear_bounds[of y] by blast
  have b2: "400 * DayFromYear (y + 1) \<le> 146097 * (y + 1 - 1970) + 589"
    using DayFromYear_bounds[of "y + 1"] by blast
  have "y - 1970 - 1 \<le> q" using q(2) b1 lo by (simp add: algebra_simps)
  moreover have "q \<le> y - 1970 + 1" using q(1) b2 hi by (simp add: algebra_simps)
  ultimately have "e = y - 1 \<or> e = y \<or> e = y + 1" unfolding e_def q_def[symmetric] by linarith
  moreover have m: "DayFromYear (y - 1) < DayFromYear y"
    using DayFromYear_mono_step[of "y - 1"] by simp
  ultimately show ?thesis
    unfolding YearFromDay_def e_def[symmetric] Let_def
    using lo hi by auto
qed

lemma YearFromDay_spec:
  "DayFromYear (YearFromDay n) \<le> n \<and> n < DayFromYear (YearFromDay n + 1)"
proof -
  define e where "e = 1970 + (400 * n) div 146097"
  define q where "q = (400 * n) div 146097"
  have q: "146097 * q \<le> 400 * n" "400 * n < 146097 * q + 146097" unfolding q_def by linarith+
  have eq: "e = 1970 + q" by (simp add: e_def q_def)
  have b1: "400 * DayFromYear (e - 1) \<le> 146097 * (e - 1 - 1970) + 589"
    using DayFromYear_bounds[of "e - 1"] by blast
  have b2: "146097 * (e + 2 - 1970) - 506 \<le> 400 * DayFromYear (e + 2)"
    using DayFromYear_bounds[of "e + 2"] by blast
  have lo: "DayFromYear (e - 1) \<le> n" using b1 q(1) eq by (simp add: algebra_simps)
  have hi: "n < DayFromYear (e + 2)" using b2 q(2) eq by (simp add: algebra_simps)
  show ?thesis
    unfolding YearFromDay_def e_def[symmetric] Let_def
    using lo hi by (auto simp: algebra_simps)
qed


lemma month_cases:
  assumes "1 \<le> (m::int)" "m \<le> 12"
  shows "m = 1 \<or> m = 2 \<or> m = 3 \<or> m = 4 \<or> m = 5 \<or> m = 6 \<or> m = 7 \<or> m = 8 \<or> m = 9
         \<or> m = 10 \<or> m = 11 \<or> m = 12"
  using assms by arith

lemma day_in_year_range:
  assumes "1 \<le> m" "m \<le> 12" "1 \<le> d" "d \<le> days_in_month leap m"
  shows "0 \<le> month_start leap (m - 1) + d - 1
         \<and> month_start leap (m - 1) + d - 1 < 365 + (if leap then 1 else 0)"
  using month_cases[OF assms(1,2)] assms(3,4)
  by (elim disjE) (simp_all add: month_start_def days_in_month_def split: if_splits)

lemma MonthFromDay_month_start:
  assumes "1 \<le> m" "m \<le> 12" "1 \<le> d" "d \<le> days_in_month leap m"
  shows "MonthFromDay leap (month_start leap (m - 1) + d - 1) = m - 1"
  using month_cases[OF assms(1,2)] assms(3,4)
  by (elim disjE) (simp_all add: month_start_def MonthFromDay_def days_in_month_def split: if_splits)

lemma local_time_parts:
  assumes "0 \<le> h" "h \<le> 23" "0 \<le> mi" "mi \<le> 59"
  shows "(D * 86400000 + (h * 3600000 + mi * 60000)) div 86400000 = (D::int)"
    and "((D * 86400000 + (h * 3600000 + mi * 60000)) div 3600000) mod 24 = h"
    and "((D * 86400000 + (h * 3600000 + mi * 60000)) div 60000) mod 60 = mi"
proof -
  let ?t = "D * 86400000 + (h * 3600000 + mi * 60000)"
  show "?t div 86400000 = D"
    using assms by (intro int_div_pos_eq[of _ _ _ "h * 3600000 + mi * 60000"]) auto
  have "?t div 3600000 = 24 * D + h"
    using assms by (intro int_div_pos_eq[of _ _ _ "mi * 60000"]) auto
  moreover have "(24 * D + h) mod 24 = h"
    using assms by (intro int_mod_pos_eq[of _ _ D]) auto
  ultimately show "(?t div 3600000) mod 24 = h" by (simp only:)
  have "?t div 60000 = 60 * (24 * D + h) + mi"
    using assms by (intro int_div_pos_eq[of _ _ _ 0]) auto
  moreover have "(60 * (24 * D + h) + mi) mod 60 = mi"
    using assms by (intro int_mod_pos_eq[of _ _ "24 * D + h"]) auto
  ultimately show "(?t div 60000) mod 60 = mi" by (simp only:)
qed

lemma newDate_local:
  assumes "100 \<le> y" "1 \<le> m" "m \<le> 12"
  shows "newDate tz y (m - 1) d h mi + tz =
     (DayFromYear y + month_start (InLeapYear y) (m - 1) + d - 1) * 86400000
       + (h * 3600000 + mi * 60000)"
proof -
  have "(m - 1) div 12 = 0" "(m - 1) mod 12 = m - 1" using assms by auto
  then show ?thesis
    using assms by (simp add: newDate_def MakeDate_def MakeDay_def MakeTime_def msPerDay_def Let_def)
qed

lemma getters_newDate:
  assumes y: "100 \<le> y" and m: "1 \<le> m" "m \<le> 12"
    and d: "1 \<le> d" "d \<le> days_in_month (InLeapYear y) m"
    and h: "0 \<le> h" "h \<le> 23" and mi: "0 \<le> mi" "mi \<le> 59"
  shows "getFullYear tz (Num (newDate tz y (m - 1) d h mi)) = Num y"
    and "getMonth tz (Num (newDate tz y (m - 1) d h mi)) = Num (m - 1)"
    and "getDate tz (Num (newDate tz y (m - 1) d h mi)) = Num d"
    and "getHours tz (Num (newDate tz y (m - 1) d h mi)) = Num h"
    and "getMinutes tz (Num (newDate tz y (m - 1) d h mi)) = Num mi"
proof -
  let ?leap = "InLeapYear y"
  let ?diy = "month_start ?leap (m - 1) + d - 1"
  let ?D = "DayFromYear y + ?diy"
  have lt: "newDate tz y (m - 1) d h mi + tz = ?D * 86400000 + (h * 3600000 + mi * 60000)"
    using newDate_local[OF y m] by (simp add: algebra_simps)
  note parts = local_time_parts[OF h mi, of ?D]
  have day: "Day (newDate tz y (m - 1) d h mi + tz) = ?D"
    unfolding Day_def msPerDay_def lt by (rule parts(1))
  have rng: "0 \<le> ?diy \<and> ?diy < 365 + (if ?leap then 1 else 0)"
    by (rule day_in_year_range[OF m d])
  have yr: "YearFromDay ?D = y"
  proof (rule YearFromDay_unique)
    show "DayFromYear y \<le> ?D" using rng by simp
    show "?D < DayFromYear (y + 1)" unfolding DayFromYear_step using rng by simp
  qed
  have dwy: "DayWithinYear (newDate tz y (m - 1) d h mi + tz) = ?diy"
    unfolding DayWithinYear_def day yr by simp
  have mon: "MonthFromDay ?leap ?diy = m - 1" by (rule MonthFromDay_month_start[OF m d])
  show "getFullYear tz (Num (newDate tz y (m - 1) d h mi)) = Num y"
    by (simp add: getFullYear_def day yr)
  show "getMonth tz (Num (newDate tz y (m - 1) d h mi)) = Num (m - 1)"
    by (simp add: getMonth_def day yr dwy mon)
  show "getDate tz (Num (newDate tz y (m - 1) d h mi)) = Num d"
    by (simp add: getDate_def day yr dwy mon Let_def)
  show "getHours tz (Num (newDate tz y (m - 1) d h mi)) = Num h"
    unfolding getHours_def jsnum.case lt by (simp only: parts(2))
  show "getMinutes tz (Num (newDate tz y (m - 1) d h mi)) = Num mi"
    unfolding getMinutes_def jsnum.case lt by (simp only: parts(3))
qed

lemma digit_val_range: "is_digit c \<Longrightarrow> 0 \<le> digit_val c \<and> digit_val c \<le> 9"
  by (auto simp: is_digit_def digit_val_def)

lemma digit_char_val: "is_digit c \<Longrightarrow> digit_char (nat (digit_val c)) = c"
proof -
  assume "is_digit c"
  then have "48 + nat (digit_val c) = of_char c"
    unfolding is_digit_def digit_val_def by linarith
  then show ?thesis by (simp add: digit_char_def)
qed

lemma digit_zero: "digit_val c = 0 \<Longrightarrow> c = CHR ''0''"
proof -
  assume "digit_val c = 0"
  then have "of_char c = (48::nat)" unfolding digit_val_def by linarith
  then have "(of_char c :: nat) = of_char (CHR ''0'')" by simp
  then show ?thesis by (simp only: of_char_eq_iff)
qed

lemma digits_of_small: "n < 10 \<Longrightarrow> digits_of n = [digit_char n]"
  by (simp add: digits_of.simps)

lemma digits_of_step: "0 < q \<Longrightarrow> r < 10 \<Longrightarrow> digits_of (10 * q + r) = digits_of q @ [digit_char r]"
  by (subst digits_of.simps) simp

lemma pad_two_digits:
  assumes "length p = 2" "list_all is_digit p"
  shows "pad (Num (parseInt p)) = p \<and> 0 \<le> parseInt p \<and> parseInt p \<le> 99"
proof -
  from assms(1) obtain a b where p: "p = [a, b]"
    by (cases p; cases "tl p") auto
  with assms(2) have da: "is_digit a" and db: "is_digit b" by auto
  let ?x = "nat (digit_val a)" and ?y = "nat (digit_val b)"
  have ra: "0 \<le> digit_val a" "digit_val a \<le> 9" and rb: "0 \<le> digit_val b" "digit_val b \<le> 9"
    using digit_val_range[OF da] digit_val_range[OF db] by auto
  have v: "parseInt p = 10 * digit_val a + digit_val b" by (simp add: p parseInt_def)
  have n: "nat (parseInt p) = 10 * ?x + ?y" using ra rb v by simp
  have "digits_of (10 * ?x + ?y) = (if ?x = 0 then [b] else [a, b])"
  proof (cases "?x = 0")
    case True
    then show ?thesis using rb digits_of_small[of ?y] digit_char_val[OF db] by simp
  next
    case False
    then have "digits_of (10 * ?x + ?y) = digits_of ?x @ [digit_char ?y]"
      using rb by (intro digits_of_step) auto
    also have "digits_of ?x = [digit_char ?x]" using ra by (intro digits_of_small) auto
    finally show ?thesis using False digit_char_val[OF da] digit_char_val[OF db] by simp
  qed
  moreover have "?x = 0 \<Longrightarrow> a = CHR ''0''" using digit_zero[of a] ra by simp
  ultimately have "pad (Num (parseInt p)) = p"
    using ra rb v n by (auto simp: pad_def toString_def padStart2_def p)
  with ra rb v show ?thesis by simp
qed

lemma toString_four_digits:
  assumes "length p = 4" "list_all is_digit p" "1000 \<le> parseInt p"
  shows "toString (Num (parseInt p)) = p"
proof -
  from assms(1) obtain a b c d where p: "p = [a, b, c, d]"
    by (cases p; cases "tl p"; cases "tl (tl p)"; cases "tl (tl (tl p))") auto
  with assms(2) have dg: "is_digit a" "is_digit b" "is_digit c" "is_digit d" by auto
  let ?a = "nat (digit_val a)" and ?b = "nat (digit_val b)"
  let ?c = "nat (digit_val c)" and ?d = "nat (digit_val d)"
  note r = digit_val_range[OF dg(1), THEN conjunct1] digit_val_range[OF dg(1), THEN conjunct2]
    digit_val_range[OF dg(2), THEN conjunct1] digit_val_range[OF dg(2), THEN conjunct2]
    digit_val_range[OF dg(3), THEN conjunct1] digit_val_range[OF dg(3), THEN conjunct2]
    digit_val_range[OF dg(4), THEN conjunct1] digit_val_range[OF dg(4), THEN conjunct2]
  have v: "parseInt p = 10 * (10 * (10 * digit_val a + digit_val b) + digit_val c) + digit_val d"
    by (simp add: p parseInt_def)
  have "0 < digit_val a" using assms(3) v r by (simp add: algebra_simps)
  then have a1: "0 < ?a" by simp
  have n: "nat (parseInt p) = 10 * (10 * (10 * ?a + ?b) + ?c) + ?d" using r v by simp
  have "digits_of (10 * (10 * (10 * ?a + ?b) + ?c) + ?d)
      = digits_of (10 * (10 * ?a + ?b) + ?c) @ [digit_char ?d]"
    using a1 r by (intro digits_of_step) auto
  also have "digits_of (10 * (10 * ?a + ?b) + ?c) = digits_of (10 * ?a + ?b) @ [digit_char ?c]"
    using a1 r by (intro digits_of_step) auto
  also have "digits_of (10 * ?a + ?b) = digits_of ?a @ [digit_char ?b]"
    using a1 r by (intro digits_of_step) auto
  also have "digits_of ?a = [digit_char ?a]" using r by (intro digits_of_small) auto
  finally have "digits_of (nat (parseInt p)) = p"
    unfolding n using digit_char_val[OF dg(1)] digit_char_val[OF dg(2)] digit_char_val[OF dg(3)]
      digit_char_val[OF dg(4)] by (simp add: p)
  then show ?thesis using assms(3) by (simp add: toString_def)
qed


lemma list_all_take_drop:
  "list_all P xs \<Longrightarrow> list_all P (take n (drop k xs))"
  by (auto simp: list_all_iff dest: in_set_takeD in_set_dropD)

lemma twelve_split:
  assumes "length ds = 12"
  shows "take 4 ds @ take 2 (drop 4 ds) @ take 2 (drop 6 ds) @ take 2 (drop 8 ds)
           @ take 2 (drop 10 ds) = ds"
proof -
  have "take 2 (drop 10 ds) = drop 10 ds" using assms by simp
  moreover have "take 2 (drop 8 ds) @ drop 10 ds = drop 8 ds"
    using append_take_drop_id[of 2 "drop 8 ds"] by simp
  moreover have "take 2 (drop 6 ds) @ drop 8 ds = drop 6 ds"
    using append_take_drop_id[of 2 "drop 6 ds"] by simp
  moreover have "take 2 (drop 4 ds) @ drop 6 ds = drop 4 ds"
    using append_take_drop_id[of 2 "drop 4 ds"] by simp
  ultimately show ?thesis by simp
qed

text \<open>
  Claim C9, as amended. For a line of the strict 12-digit shape whose digits name a
  minute of the calendar in a year from 1000 to 9999, formatting the parsed timestamp
  gives back the twelve digits, in any host zone of constant offset.
\<close>

theorem format_parse_roundtrip:
  "row_shape ln ds \<and> length ds = 12 \<and> calendar_code ds \<longrightarrow> formatParsed tz ln = Some ds"
proof
  assume h: "row_shape ln ds \<and> length ds = 12 \<and> calendar_code ds"
  then have len: "length ds = 12" and sm: "strict_match ln = Some ds"
    by (simp_all add: strict_match_iff)
  from h have dg: "list_all is_digit ds" unfolding row_shape_def by blast
  let ?Y = "take 4 ds" and ?M = "take 2 (drop 4 ds)" and ?D = "take 2 (drop 6 ds)"
  let ?H = "take 2 (drop 8 ds)" and ?N = "take 2 (drop 10 ds)"
  let ?y = "parseInt ?Y" and ?m = "parseInt ?M" and ?d = "parseInt ?D"
  let ?h = "parseInt ?H" and ?n = "parseInt ?N"
  have pt: "parseTimestamp tz ln = Some (newDate tz ?y (?m - 1) ?d ?h ?n)"
    using sm len by (simp add: parseTimestamp_def substring_def)
  from h have c0: "calendar_code ds" by blast
  from c0 have cc: "1000 \<le> ?y" "1 \<le> ?m" "?m \<le> 12" "1 \<le> ?d"
    "?d \<le> days_in_month (InLeapYear ?y) ?m" "?h \<le> 23" "?n \<le> 59"
    by (simp_all add: calendar_code_def substring_def Let_def)
  have lY: "length ?Y = 4" and lM: "length ?M = 2" and lD: "length ?D = 2"
    and lH: "length ?H = 2" and lN: "length ?N = 2"
    using len by simp_all
  have dY: "list_all is_digit ?Y" using list_all_take_drop[OF dg, of 4 0] by simp
  note pM = pad_two_digits[OF lM list_all_take_drop[OF dg]]
  note pD = pad_two_digits[OF lD list_all_take_drop[OF dg]]
  note pH = pad_two_digits[OF lH list_all_take_drop[OF dg]]
  note pN = pad_two_digits[OF lN list_all_take_drop[OF dg]]
  have y100: "100 \<le> ?y" using cc(1) by simp
  have h0: "0 \<le> ?h" using pH by blast
  have n0: "0 \<le> ?n" using pN by blast
  note g = getters_newDate[OF y100 cc(2) cc(3) cc(4) cc(5) h0 cc(6) n0 cc(7), of tz]
  have "formattedTime tz (Num (newDate tz ?y (?m - 1) ?d ?h ?n))
      = toString (Num ?y) @ pad (Num ?m) @ pad (Num ?d) @ pad (Num ?h) @ pad (Num ?n)"
    unfolding formattedTime_def g by (simp add: plus1_def)
  also have "\<dots> = ?Y @ ?M @ ?D @ ?H @ ?N"
    using toString_four_digits[OF lY dY cc(1)] pM pD pH pN by simp
  also have "\<dots> = ds" by (rule twelve_split[OF len])
  finally show "formatParsed tz ln = Some ds"
    by (simp add: formatParsed_def pt)
qed

lemma row_shape_example12: "row_shape ''- 202406181245 - x'' ''202406181245''"
  unfolding row_shape_def
  by (rule exI[of _ "'' ''"], rule exI[of _ "'' ''"], rule exI[of _ "'' ''"], rule exI[of _ "''x''"])
     (simp add: all_space_def js_space_def is_digit_def)

lemma calendar_code_example12: "calendar_code ''202406181245''"
  by code_simp

theorem format_parse_roundtrip_witness:
  "row_shape ''- 202406181245 - x'' ''202406181245'' \<and> length ''202406181245'' = 12
   \<and> calendar_code ''202406181245''
   \<and> formatParsed 3600000 ''- 202406181245 - x'' = Some ''202406181245''"
  using format_parse_roundtrip[of "''- 202406181245 - x''" "''202406181245''" 3600000]
    row_shape_example12 calendar_code_example12
  by simp

text \<open>
  The claim as stated, for every line of the strict 12-digit shape, fails: the Date
  constructor carries a month 13 over into the next year, so \<^verbatim>\<open>202413011200\<close> comes back as
  \<^verbatim>\<open>202501011200\<close>.
\<close>

theorem format_parse_roundtrip_counterexample:
  "strict_match ''- 202413011200 - x'' = Some ''202413011200''
   \<and> formatParsed 0 ''- 202413011200 - x'' = Some ''202501011200''"
  by code_simp

section \<open>The post extractor\<close>

lemma lit_str_Some_iff: "lit_str p s = Some r \<longleftrightarrow> s = p @ r"
  by (auto simp: lit_str_def) (metis append_eq_conv_conj)+

lemma permalink_at_iff:
  "permalink_at s = Some m \<longleftrightarrow>
     (\<exists>sub pid rest. s = ''/r/'' @ sub @ ''/comments/'' @ pid @ ''/'' @ rest
        \<and> sub \<noteq> [] \<and> list_all not_slash sub \<and> pid \<noteq> [] \<and> list_all not_slash pid
        \<and> m = ''/r/'' @ sub @ ''/comments/'' @ pid @ ''/'')"
    (is "?L \<longleftrightarrow> ?R")
proof
  assume ?L
  then obtain r1 r2 r3 where a: "lit_str ''/r/'' s = Some r1"
    and sub: "takeWhile not_slash r1 \<noteq> []"
    and b: "lit_str ''/comments/'' (dropWhile not_slash r1) = Some r2"
    and pid: "takeWhile not_slash r2 \<noteq> []"
    and c: "lit (CHR ''/'') (dropWhile not_slash r2) = Some r3"
    and m: "m = ''/r/'' @ takeWhile not_slash r1 @ ''/comments/'' @ takeWhile not_slash r2 @ ''/''"
    by (auto simp: permalink_at_def Let_def split: bind_splits if_splits)
  have s: "s = ''/r/'' @ r1" using a by (simp only: lit_str_Some_iff)
  have r1: "r1 = takeWhile not_slash r1 @ ''/comments/'' @ r2"
    using b unfolding lit_str_Some_iff by (metis takeWhile_dropWhile_id)
  have r2: "r2 = takeWhile not_slash r2 @ ''/'' @ r3"
    using c unfolding lit_Some_iff by (metis takeWhile_dropWhile_id append_Cons append_Nil)
  have "s = ''/r/'' @ takeWhile not_slash r1 @ ''/comments/'' @ takeWhile not_slash r2 @ ''/'' @ r3"
    using s r1 r2 by (metis append_assoc)
  moreover have "list_all not_slash (takeWhile not_slash r1)"
    and "list_all not_slash (takeWhile not_slash r2)"
    by (auto simp: list_all_iff dest: set_takeWhileD)
  ultimately show ?R using sub pid m by blast
next
  assume ?R
  then obtain sub pid rest where s: "s = ''/r/'' @ sub @ ''/comments/'' @ pid @ ''/'' @ rest"
    and sub: "sub \<noteq> []" "list_all not_slash sub" and pid: "pid \<noteq> []" "list_all not_slash pid"
    and m: "m = ''/r/'' @ sub @ ''/comments/'' @ pid @ ''/''"
    by blast
  let ?t2 = "pid @ ''/'' @ rest"
  let ?t1 = "sub @ ''/comments/'' @ ?t2"
  have a: "lit_str ''/r/'' s = Some ?t1" unfolding lit_str_Some_iff s by simp
  have tw1: "takeWhile not_slash ?t1 = sub"
    using sub(2) by (intro takeWhile_run) (simp_all add: not_slash_def)
  have dw1: "dropWhile not_slash ?t1 = ''/comments/'' @ ?t2"
    using sub(2) by (intro dropWhile_run) (simp_all add: not_slash_def)
  have b: "lit_str ''/comments/'' (''/comments/'' @ ?t2) = Some ?t2"
    unfolding lit_str_Some_iff ..
  have tw2: "takeWhile not_slash ?t2 = pid"
    using pid(2) by (intro takeWhile_run) (simp_all add: not_slash_def)
  have dw2: "dropWhile not_slash ?t2 = ''/'' @ rest"
    using pid(2) by (intro dropWhile_run) (simp_all add: not_slash_def)
  have c: "lit (CHR ''/'') (''/'' @ rest) = Some rest" by (simp add: lit_Some_iff)
  show ?L
    unfolding permalink_at_def a bind.bind_lunit Let_def tw1 dw1 b tw2 dw2 c
    using sub(1) pid(1) m by simp
qed

lemma permalink_match_iff: "permalink_match s \<noteq> None \<longleftrightarrow> permalink_shape s"
proof (induction s)
  case Nil
  show ?case by (simp add: permalink_shape_def)
next
  case (Cons c cs)
  show ?case
  proof
    assume "permalink_match (c # cs) \<noteq> None"
    then consider m where "permalink_at (c # cs) = Some m" | "permalink_match cs \<noteq> None"
      by (auto split: option.splits)
    then show "permalink_shape (c # cs)"
    proof cases
      case 1
      then obtain sub pid rest where
        "c # cs = [] @ ''/r/'' @ sub @ ''/comments/'' @ pid @ ''/'' @ rest
          \<and> sub \<noteq> [] \<and> list_all not_slash sub \<and> pid \<noteq> [] \<and> list_all not_slash pid"
        unfolding permalink_at_iff by auto
      then show ?thesis unfolding permalink_shape_def by blast
    next
      case 2
      then have "permalink_shape cs" using Cons.IH by blast
      then obtain pre sub pid rest where
        "cs = pre @ ''/r/'' @ sub @ ''/comments/'' @ pid @ ''/'' @ rest
          \<and> sub \<noteq> [] \<and> list_all not_slash sub \<and> pid \<noteq> [] \<and> list_all not_slash pid"
        unfolding permalink_shape_def by blast
      then have "c # cs = (c # pre) @ ''/r/'' @ sub @ ''/comments/'' @ pid @ ''/'' @ rest
          \<and> sub \<noteq> [] \<and> list_all not_slash sub \<and> pid \<noteq> [] \<and> list_all not_slash pid"
        by simp
      then show ?thesis unfolding permalink_shape_def by blast
    qed
  next
    assume "permalink_shape (c # cs)"
    then obtain pre sub pid rest where
      e: "c # cs = pre @ ''/r/'' @ sub @ ''/comments/'' @ pid @ ''/'' @ rest"
      and p: "sub \<noteq> [] \<and> list_all not_slash sub \<and> pid \<noteq> [] \<and> list_all not_slash pid"
      unfolding permalink_shape_def by blast
    show "permalink_match (c # cs) \<noteq> None"
    proof (cases pre)
      case Nil
      then have "permalink_at (c # cs) = Some (''/r/'' @ sub @ ''/comments/'' @ pid @ ''/'')"
        unfolding permalink_at_iff using e p by auto
      then show ?thesis by simp
    next
      case (Cons a pre')
      then have "cs = pre' @ ''/r/'' @ sub @ ''/comments/'' @ pid @ ''/'' @ rest" using e by simp
      then have "permalink_shape cs" unfolding permalink_shape_def using p by blast
      then have "permalink_match cs \<noteq> None" using Cons.IH by blast
      then show ?thesis by (auto split: option.splits)
    qed
  qed
qed

lemma extractLoop_eq:
  "extractLoop dp tz posts acc =
     acc @ map (\<lambda>p. the (postLine dp tz p)) (filter (\<lambda>p. postLine dp tz p \<noteq> None) posts)"
  by (induction posts arbitrary: acc) (auto split: option.splits)

lemma postLine_None_iff:
  "postLine dp tz post = None \<longleftrightarrow>
     falsy (post ''post-title'') \<or> falsy (post ''permalink'') \<or> falsy (post ''created-timestamp'')
     \<or> \<not> permalink_shape (the (post ''permalink''))"
  unfolding permalink_match_iff[symmetric]
  by (auto simp: postLine_def Let_def split: option.splits)

text \<open>
  Claim C8. A candidate contributes no line exactly when its title, permalink or
  created-timestamp is absent or empty, or its permalink holds no match of the pattern;
  the extractor returns the lines of the other candidates in the order of the elements,
  so that dropping or inserting a skipped candidate changes nothing. The extractor has
  no failing path: its result is always a list of lines.
\<close>

theorem extract_skips_invalid:
  "(postLine dp tz post = None \<longleftrightarrow>
      falsy (post ''post-title'') \<or> falsy (post ''permalink'')
      \<or> falsy (post ''created-timestamp'') \<or> \<not> permalink_shape (the (post ''permalink'')))
   \<and> (falsy x \<longleftrightarrow> x = None \<or> x = Some [])
   \<and> extractRedditPosts dp tz posts =
       map (\<lambda>p. the (postLine dp tz p)) (filter (\<lambda>p. postLine dp tz p \<noteq> None) posts)
   \<and> (postLine dp tz post = None \<longrightarrow>
        extractRedditPosts dp tz (xs @ post # ys)
          = extractRedditPosts dp tz xs @ extractRedditPosts dp tz ys)
   \<and> (\<forall>l. postLine dp tz post = Some l \<longrightarrow>
        extractRedditPosts dp tz (xs @ post # ys)
          = extractRedditPosts dp tz xs @ l # extractRedditPosts dp tz ys)"
proof -
  have f: "falsy x \<longleftrightarrow> x = None \<or> x = Some []"
    by (simp add: falsy_def split: option.splits)
  have e: "\<And>ps. extractRedditPosts dp tz ps =
       map (\<lambda>p. the (postLine dp tz p)) (filter (\<lambda>p. postLine dp tz p \<noteq> None) ps)"
    by (simp add: extractRedditPosts_def extractLoop_eq)
  have n: "postLine dp tz post = None \<longrightarrow>
        extractRedditPosts dp tz (xs @ post # ys)
          = extractRedditPosts dp tz xs @ extractRedditPosts dp tz ys"
    unfolding e by simp
  have s: "\<forall>l. postLine dp tz post = Some l \<longrightarrow>
        extractRedditPosts dp tz (xs @ post # ys)
          = extractRedditPosts dp tz xs @ l # extractRedditPosts dp tz ys"
    unfolding e by simp
  from postLine_None_iff[of dp tz post] f e[of posts] n s show ?thesis by blast
qed


lemma example_missing_title:
  "postLine ecma_parse 0
     [''permalink'' \<mapsto> ''/r/test/comments/abc123/hello/'',
      ''created-timestamp'' \<mapsto> ''2024-06-18T16:45:00Z''] = None"
  by (simp add: postLine_def falsy_def)

lemma example_two_posts:
  "extractRedditPosts ecma_parse 0
     [[''post-title'' \<mapsto> ''Hello'', ''permalink'' \<mapsto> ''/r/test/comments/abc123/hello/'',
       ''created-timestamp'' \<mapsto> ''2024-06-18T16:45:00Z''],
      [''post-title'' \<mapsto> ''Bye'', ''permalink'' \<mapsto> ''/user/someone/'',
       ''created-timestamp'' \<mapsto> ''2024-06-18T16:45:00Z'']]
   = [''- 202406181245 - [Hello](https://www.reddit.com/r/test/comments/abc123/)'']"
  by code_simp

theorem extract_skips_invalid_witness:
  "postLine ecma_parse 0
     [''permalink'' \<mapsto> ''/r/test/comments/abc123/hello/'',
      ''created-timestamp'' \<mapsto> ''2024-06-18T16:45:00Z''] = None
   \<and> extractRedditPosts ecma_parse 0
     [[''permalink'' \<mapsto> ''/r/test/comments/abc123/hello/'',
       ''created-timestamp'' \<mapsto> ''2024-06-18T16:45:00Z''],
      [''post-title'' \<mapsto> ''Hello'', ''permalink'' \<mapsto> ''/r/test/comments/abc123/hello/'',
       ''created-timestamp'' \<mapsto> ''2024-06-18T16:45:00Z''],
      [''post-title'' \<mapsto> ''Bye'', ''permalink'' \<mapsto> ''/user/someone/'',
       ''created-timestamp'' \<mapsto> ''2024-06-18T16:45:00Z'']]
   = [''- 202406181245 - [Hello](https://www.reddit.com/r/test/comments/abc123/)'']"
proof -
  let ?bad = "[''permalink'' \<mapsto> ''/r/test/comments/abc123/hello/'',
      ''created-timestamp'' \<mapsto> ''2024-06-18T16:45:00Z'']"
  let ?rest = "[[''post-title'' \<mapsto> ''Hello'', ''permalink'' \<mapsto> ''/r/test/comments/abc123/hello/'',
       ''created-timestamp'' \<mapsto> ''2024-06-18T16:45:00Z''],
      [''post-title'' \<mapsto> ''Bye'', ''permalink'' \<mapsto> ''/user/someone/'',
       ''created-timestamp'' \<mapsto> ''2024-06-18T16:45:00Z'']]"
  have e: "extractRedditPosts ecma_parse 0 [] = []" by (simp add: extractRedditPosts_def)
  from extract_skips_invalid[of ecma_parse 0 ?bad _ _ "[]" ?rest] example_missing_title
  have "extractRedditPosts ecma_parse 0 ([] @ ?bad # ?rest)
          = extractRedditPosts ecma_parse 0 [] @ extractRedditPosts ecma_parse 0 ?rest"
    by blast
  then show ?thesis
    unfolding example_two_posts e using example_missing_title by simp
qed

text \<open>
  Claim C3. The source subtracts four hours from the UTC instant and then reads the
  fields with \<^verbatim>\<open>getFullYear\<close>, \<^verbatim>\<open>getMonth\<close>, \<^verbatim>\<open>getDate\<close>, \<^verbatim>\<open>getHours\<close> and \<^verbatim>\<open>getMinutes\<close>, which
  are local time. The line of the specification's example comes out only on a host whose
  zone is UTC; on a host at UTC-4 the same element gives 08:45.
\<close>

theorem extract_example_depends_on_host_zone:
  "extractRedditPosts ecma_parse 0
     [[''post-title'' \<mapsto> ''Hello'', ''permalink'' \<mapsto> ''/r/test/comments/abc123/hello/'',
       ''created-timestamp'' \<mapsto> ''2024-06-18T16:45:00Z'']]
     = [''- 202406181245 - [Hello](https://www.reddit.com/r/test/comments/abc123/)'']
   \<and> extractRedditPosts ecma_parse (- 14400000)
     [[''post-title'' \<mapsto> ''Hello'', ''permalink'' \<mapsto> ''/r/test/comments/abc123/hello/'',
       ''created-timestamp'' \<mapsto> ''2024-06-18T16:45:00Z'']]
     = [''- 202406180845 - [Hello](https://www.reddit.com/r/test/comments/abc123/)'']"
  by code_simp

end
